theory Spec2Isabelle
  imports Complex_Main "HOL-Library.Word" "HOL-Library.Log_Nat"
begin

unbundle bit_operations_syntax

section \<open>JavaScript numbers\<close>

text \<open>
  The program computes with IEEE doubles.  A finite \<^verbatim>\<open>number\<close> is a
  \<^typ>\<open>real\<close>, an integer-valued one an \<^typ>\<open>int\<close> or \<^typ>\<open>nat\<close>.  The level
  generator and the elevation codec, whose claims turn on rounding, round every
  arithmetic operation to the nearest double (section \<open>Doubles\<close>).  The geometric
  modules (hillshade, contours, smoothing, clipping) are embedded with exact arithmetic;
  what is proved of them does not depend on the last digits.  A quotient by zero is
  \<^verbatim>\<open>Infinity\<close> or \<^verbatim>\<open>NaN\<close> in the program and \<open>0\<close> in HOL, so every division
  whose divisor the code does not guard goes through \<open>js_div\<close>, which has no value
  there.
\<close>

definition js_div :: "real \<Rightarrow> real \<Rightarrow> real option" where
  "js_div a b = (if b = 0 then None else Some (a / b))"

text \<open>\<^verbatim>\<open>Math.round\<close>: the nearest integer, a tie going up.\<close>

definition js_round :: "real \<Rightarrow> int" where
  "js_round v = \<lfloor>v + 1 / 2\<rfloor>"





section \<open>Doubles\<close>

text \<open>
  A finite double is a real \<open>m \<cdot> 2\<^sup>k\<close> with \<open>\<bar>m\<bar> < 2\<^sup>5\<^sup>3\<close> and \<open>k \<ge> -1074\<close>.
  The result of an arithmetic operation is the exact result rounded to the nearest
  double, a tie going to the even mantissa: \<open>fl\<close>.  \<open>exponent x\<close> is the integer
  \<open>e\<close> with \<open>2\<^sup>e \<le> \<bar>x\<bar> < 2\<^sup>e\<^sup>+\<^sup>1\<close>; the spacing of the doubles around \<open>x\<close> is
  \<open>2\<close> to the power \<open>ulp_exponent x\<close>, which stops at \<open>-1074\<close> (the subnormal
  numbers).  A rounded result beyond the largest double is an infinity (\<open>to_number\<close>).
\<close>

definition round_half_even :: "real \<Rightarrow> int" where
  "round_half_even q =
     (let n = \<lfloor>q\<rfloor>; r = q - of_int n
      in if r < 1 / 2 then n else if 1 / 2 < r then n + 1 else if even n then n else n + 1)"

definition exponent :: "real \<Rightarrow> int" where
  "exponent x =
     (if 1 \<le> \<bar>x\<bar> then bitlen \<lfloor>\<bar>x\<bar>\<rfloor> - 1 else - bitlen (\<lceil>1 / \<bar>x\<bar>\<rceil> - 1))"

definition ulp_exponent :: "real \<Rightarrow> int" where
  "ulp_exponent x = max (exponent x - 52) (- 1074)"

definition fl :: "real \<Rightarrow> real" where
  "fl x = of_int (round_half_even (x / 2 powi ulp_exponent x)) * 2 powi ulp_exponent x"

definition MAX_VALUE :: real where
  "MAX_VALUE = (2 ^ 53 - 1) * 2 ^ 971"

definition is_double :: "real \<Rightarrow> bool" where
  "is_double x = (fl x = x \<and> \<bar>x\<bar> \<le> MAX_VALUE)"

text \<open>
  The values of type \<^verbatim>\<open>number\<close>, with addition and comparison as IEEE has them
  on the infinities and on \<^verbatim>\<open>NaN\<close>.
\<close>

datatype number = Finite real | PlusInfinity | MinusInfinity | NaN

definition to_number :: "real \<Rightarrow> number" where
  "to_number x =
     (if MAX_VALUE < fl x then PlusInfinity
      else if fl x < - MAX_VALUE then MinusInfinity
      else Finite (fl x))"

fun number_add :: "number \<Rightarrow> number \<Rightarrow> number" where
  "number_add (Finite a) (Finite b) = to_number (a + b)"
| "number_add NaN b = NaN"
| "number_add a NaN = NaN"
| "number_add PlusInfinity MinusInfinity = NaN"
| "number_add MinusInfinity PlusInfinity = NaN"
| "number_add PlusInfinity b = PlusInfinity"
| "number_add a PlusInfinity = PlusInfinity"
| "number_add MinusInfinity b = MinusInfinity"
| "number_add a MinusInfinity = MinusInfinity"

fun number_less :: "number \<Rightarrow> number \<Rightarrow> bool" where
  "number_less (Finite a) (Finite b) = (a < b)"
| "number_less NaN b = False"
| "number_less a NaN = False"
| "number_less PlusInfinity b = False"
| "number_less a PlusInfinity = True"
| "number_less a MinusInfinity = False"
| "number_less MinusInfinity b = True"

fun number_le :: "number \<Rightarrow> number \<Rightarrow> bool" where
  "number_le (Finite a) (Finite b) = (a \<le> b)"
| "number_le NaN b = False"
| "number_le a NaN = False"
| "number_le MinusInfinity b = True"
| "number_le a PlusInfinity = True"
| "number_le a MinusInfinity = False"
| "number_le PlusInfinity b = False"

fun is_number :: "number \<Rightarrow> bool" where
  "is_number (Finite x) = is_double x"
| "is_number v = True"

text \<open>The multiples of \<open>2\<^sup>k\<close>.\<close>

definition on_grid :: "int \<Rightarrow> real \<Rightarrow> bool" where
  "on_grid k x = (of_int \<lfloor>x / 2 powi k\<rfloor> = x / 2 powi k)"





section \<open>Level generation (\<^verbatim>\<open>src/lib/tiles/types.ts\<close>)\<close>

text \<open>
  \<^verbatim>\<open>for (let level = min; level < max; level += interval) levels.push(level)\<close>.
  The three arguments are numbers, the addition is the addition of doubles.  Nothing
  bounds the number of rounds, so the loop is a partial function and \<open>None\<close> stands
  for a run that never returns.
\<close>

partial_function (option) generateLevels_loop ::
  "number \<Rightarrow> number \<Rightarrow> number \<Rightarrow> number list \<Rightarrow> number list option" where
  "generateLevels_loop level mx interval levels =
     (if number_less level mx
      then generateLevels_loop (number_add level interval) mx interval (levels @ [level])
      else Some levels)"

definition generateLevels :: "number \<Rightarrow> number \<Rightarrow> number \<Rightarrow> number list option" where
  "generateLevels mn mx interval = generateLevels_loop mn mx interval []"

section \<open>Ground resolution (\<^verbatim>\<open>hillshade.ts\<close>)\<close>

definition EARTH_RADIUS :: real where
  "EARTH_RADIUS = 6378137"

text \<open>\<^verbatim>\<open>Math.pow(2, zoom)\<close> is \<open>2 powr zoom\<close>; the zoom need not be an integer.\<close>

definition getResolution :: "real \<Rightarrow> real \<Rightarrow> real option" where
  "getResolution zoom tileSize = js_div (2 * pi * EARTH_RADIUS) (tileSize * 2 powr zoom)"

section \<open>Elevation codec (\<^verbatim>\<open>src/lib/dem/elevation.ts\<close>)\<close>









section \<open>Chaikin smoothing (\<^verbatim>\<open>src/lib/dem/smooth.ts\<close>)\<close>

text \<open>A GeoJSON \<^verbatim>\<open>Position\<close> is a pair of coordinates.\<close>

type_synonym Position = "real \<times> real"

text \<open>
  \<^verbatim>\<open>SmoothOptions & { closed?: boolean }\<close>: every field may be absent, and so may
  the options object itself.
\<close>

record SmoothOptions =
  iterations :: "real option"
  factor :: "real option"
  closed_ring :: "bool option"

definition DEFAULT_ITERATIONS :: real where
  "DEFAULT_ITERATIONS = 2"

definition DEFAULT_FACTOR :: real where
  "DEFAULT_FACTOR = 25 / 100"

definition isClosedRing :: "Position list \<Rightarrow> bool" where
  "isClosedRing coords =
     (if length coords < 4 then False
      else (let first = coords ! 0; lst = coords ! (length coords - 1)
            in \<bar>fst first - fst lst\<bar> < 1 / 10 ^ 10 \<and> \<bar>snd first - snd lst\<bar> < 1 / 10 ^ 10))"

text \<open>
  \<^verbatim>\<open>subdivideCoords\<close> writes two points per input vertex; the neighbour of the
  last vertex is the first one (index modulo \<open>n\<close>).
\<close>

definition subdivideCoords :: "Position list \<Rightarrow> real \<Rightarrow> Position list" where
  "subdivideCoords coords fac =
     (let n = length coords; f1 = 1 - fac; f2 = fac
      in concat (map (\<lambda>i.
           (let c1 = coords ! i; c2 = coords ! ((i + 1) mod n)
            in [(f1 * fst c1 + f2 * fst c2, f1 * snd c1 + f2 * snd c2),
                (f2 * fst c1 + f1 * fst c2, f2 * snd c1 + f1 * snd c2)])) [0..<n]))"

definition computeTrimLength :: "real \<Rightarrow> real" where
  "computeTrimLength its = (its * (its + 1) * (2 * its + 1)) / 6"

text \<open>
  \<^verbatim>\<open>for (let i = 0; i < bound; i++)\<close> with a numeric bound runs once for every
  natural number below the bound.
\<close>

definition loop_count :: "real \<Rightarrow> nat" where
  "loop_count bound = nat \<lceil>bound\<rceil>"

definition smoothClosedRing :: "Position list \<Rightarrow> real \<Rightarrow> real \<Rightarrow> Position list" where
  "smoothClosedRing coords its fac =
     (let current = (if isClosedRing coords then butlast coords else coords);
          current = ((\<lambda>c. subdivideCoords c fac) ^^ loop_count its) current
      in current @ take 1 current)"

definition smoothOpenLine :: "Position list \<Rightarrow> real \<Rightarrow> real \<Rightarrow> Position list" where
  "smoothOpenLine coords its fac =
     (if its \<le> 0 \<or> length coords < 2 then coords
      else (let current = ((\<lambda>c. subdivideCoords c fac) ^^ loop_count its) coords;
                trimLength = computeTrimLength its
            in [coords ! 0]
               @ take (loop_count (real (length current) - trimLength)) current
               @ [coords ! (length coords - 1)]))"

definition smoothCoords :: "Position list \<Rightarrow> SmoothOptions option \<Rightarrow> Position list" where
  "smoothCoords coords options =
     (if length coords < 2 then coords
      else (let its = (case Option.bind options iterations of None \<Rightarrow> DEFAULT_ITERATIONS | Some i \<Rightarrow> i);
                fac = (case Option.bind options factor of None \<Rightarrow> DEFAULT_FACTOR | Some f \<Rightarrow> f);
                cl = (case Option.bind options closed_ring of None \<Rightarrow> False | Some c \<Rightarrow> c)
            in if cl \<or> isClosedRing coords then smoothClosedRing coords its fac
               else smoothOpenLine coords its fac))"

section \<open>Outcomes\<close>

text \<open>
  What a call can end with instead of its result.  All but \<open>DivisionByZero\<close> are
  exceptions of the program.  \<open>DivisionByZero\<close> is none: there the program goes on
  with \<^verbatim>\<open>Infinity\<close> or \<^verbatim>\<open>NaN\<close>, which are no real numbers, and the model
  stops following it.
\<close>

datatype error =
    GridDataEmpty
  | GridDimensionsNotPositive
  | GridLengthMismatch
  | AltitudeOutOfRange
  | AzimuthOutOfRange
  | DivisionByZero
  | TypeError
  | CenterTileFailed
  | FetchRejected
  | DecodeFailed

section \<open>Grids (\<^verbatim>\<open>src/lib/dem/grid.ts\<close>)\<close>

record Grid =
  data :: "real list"
  width :: int
  height :: int

definition createGrid :: "real list \<Rightarrow> int \<Rightarrow> int \<Rightarrow> error + Grid" where
  "createGrid d w h =
     (if d = [] then Inl GridDataEmpty
      else if w \<le> 0 \<or> h \<le> 0 then Inl GridDimensionsNotPositive
      else if int (length d) \<noteq> w * h then Inl GridLengthMismatch
      else Inr \<lparr>data = d, width = w, height = h\<rparr>)"

text \<open>
  \<^verbatim>\<open>gridGet\<close> clamps the coordinates; on a grid that \<open>createGrid\<close> returned the
  index is inside the data.
\<close>

definition gridGet :: "Grid \<Rightarrow> int \<Rightarrow> int \<Rightarrow> real" where
  "gridGet grid x y =
     (let clampedX = max 0 (min (width grid - 1) x);
          clampedY = max 0 (min (height grid - 1) y)
      in data grid ! nat (clampedY * width grid + clampedX))"

definition gridGetAt :: "Grid \<Rightarrow> int \<Rightarrow> real" where
  "gridGetAt grid index = data grid ! nat index"

section \<open>Hillshade (\<^verbatim>\<open>hillshade.ts\<close>, the dot-product version)\<close>

record HillshadeOptions =
  altitude :: "real option"
  azimuth :: "real option"

text \<open>\<^verbatim>\<open>const { altitude = 45, azimuth = 315 } = options ?? {}\<close>\<close>

definition sun_altitude :: "HillshadeOptions option \<Rightarrow> real" where
  "sun_altitude options = (case Option.bind options altitude of None \<Rightarrow> 45 | Some a \<Rightarrow> a)"

definition sun_azimuth :: "HillshadeOptions option \<Rightarrow> real" where
  "sun_azimuth options = (case Option.bind options azimuth of None \<Rightarrow> 315 | Some a \<Rightarrow> a)"

definition validateSunPosition :: "real \<Rightarrow> real \<Rightarrow> error option" where
  "validateSunPosition alt az =
     (if alt < 0 \<or> alt > 90 then Some AltitudeOutOfRange
      else if az < 0 \<or> az > 360 then Some AzimuthOutOfRange
      else None)"

definition FLAT_THRESHOLD_SQ :: real where
  "FLAT_THRESHOLD_SQ = 1 / 10 ^ 10"

definition computePixelHillshadeFast ::
  "Grid \<Rightarrow> int \<Rightarrow> int \<Rightarrow> real \<Rightarrow> real \<Rightarrow> real \<Rightarrow> real \<Rightarrow> real \<Rightarrow> real" where
  "computePixelHillshadeFast grid x y gradientScale sunX sunY sunZ flatIllumination =
     (let a = gridGet grid (x - 1) (y - 1);
          b = gridGet grid x (y - 1);
          c = gridGet grid (x + 1) (y - 1);
          d = gridGet grid (x - 1) y;
          f = gridGet grid (x + 1) y;
          g = gridGet grid (x - 1) (y + 1);
          h = gridGet grid x (y + 1);
          i = gridGet grid (x + 1) (y + 1);
          dzdx = (c + 2 * f + i - (a + 2 * d + g)) * gradientScale;
          dzdy = (g + 2 * h + i - (a + 2 * b + c)) * gradientScale;
          gradMagSq = dzdx * dzdx + dzdy * dzdy
      in if gradMagSq < FLAT_THRESHOLD_SQ then flatIllumination
         else (let normalMag = sqrt (gradMagSq + 1);
                   dotProduct = (- sunX * dzdx - sunY * dzdy + sunZ) / normalMag;
                   illumination = 255 * dotProduct
               in if illumination < 0 then 0
                  else if illumination > 255 then 255 else illumination))"

text \<open>
  The two loops fill \<^verbatim>\<open>result[y * width + x]\<close> row by row: the list of all
  pixels in row-major order.
\<close>

definition pixel_rows :: "int \<Rightarrow> int \<Rightarrow> (int \<Rightarrow> int \<Rightarrow> 'a) \<Rightarrow> 'a list" where
  "pixel_rows w h px =
     concat (map (\<lambda>y. map (\<lambda>x. px (int x) (int y)) [0..<nat w]) [0..<nat h])"

definition hillshade ::
  "real list \<Rightarrow> int \<Rightarrow> int \<Rightarrow> real \<Rightarrow> HillshadeOptions option \<Rightarrow> error + Grid" where
  "hillshade d w h cellSize options =
     (case createGrid d w h of
        Inl e \<Rightarrow> Inl e
      | Inr grid \<Rightarrow>
          (case validateSunPosition (sun_altitude options) (sun_azimuth options) of
             Some e \<Rightarrow> Inl e
           | None \<Rightarrow>
               (let azimuthRad = ((360 - sun_azimuth options + 90) * pi) / 180;
                    zenithRad = ((90 - sun_altitude options) * pi) / 180;
                    cosZenith = cos zenithRad;
                    sinZenith = sin zenithRad;
                    sunX = sinZenith * cos azimuthRad;
                    sunY = sinZenith * sin azimuthRad;
                    sunZ = cosZenith;
                    flatIllumination = 255 * cosZenith
                in (case js_div 1 (8 * cellSize) of
                      None \<Rightarrow> Inl DivisionByZero
                    | Some gradientScale \<Rightarrow>
                        Inr \<lparr>data = pixel_rows w h (\<lambda>x y.
                                 computePixelHillshadeFast grid x y gradientScale
                                   sunX sunY sunZ flatIllumination),
                             width = w, height = h\<rparr>))))"

section \<open>Hillshade (\<^verbatim>\<open>hillshade.ts\<close>, the slope and aspect version)\<close>

text \<open>
  The repository holds a second copy of the module whose pixel function works with
  the slope and aspect angles.  \<^verbatim>\<open>Math.atan2\<close> is modelled by its definition
  from \<open>arctan\<close>; at the origin (where the program distinguishes signed zeros) it
  is \<open>0\<close>.
\<close>

definition js_atan2 :: "real \<Rightarrow> real \<Rightarrow> real" where
  "js_atan2 y x =
     (if 0 < x then arctan (y / x)
      else if x < 0 then (if 0 \<le> y then arctan (y / x) + pi else arctan (y / x) - pi)
      else if 0 < y then pi / 2
      else if y < 0 then - (pi / 2)
      else 0)"

definition computePixelHillshade ::
  "Grid \<Rightarrow> int \<Rightarrow> int \<Rightarrow> real \<Rightarrow> real \<Rightarrow> real \<Rightarrow> real \<Rightarrow> real option" where
  "computePixelHillshade grid x y cellSize azimuthRad cosZenith sinZenith =
     (let a = gridGet grid (x - 1) (y - 1);
          b = gridGet grid x (y - 1);
          c = gridGet grid (x + 1) (y - 1);
          d = gridGet grid (x - 1) y;
          f = gridGet grid (x + 1) y;
          g = gridGet grid (x - 1) (y + 1);
          h = gridGet grid x (y + 1);
          i = gridGet grid (x + 1) (y + 1)
      in (case (js_div (c + 2 * f + i - (a + 2 * d + g)) (8 * cellSize),
                js_div (g + 2 * h + i - (a + 2 * b + c)) (8 * cellSize)) of
            (Some dzdx, Some dzdy) \<Rightarrow>
              (let slopeRad = arctan (sqrt (dzdx * dzdx + dzdy * dzdy));
                   aspectRad = js_atan2 dzdy (- dzdx);
                   aspectRad = (if aspectRad < 0 then aspectRad + 2 * pi else aspectRad);
                   illumination = cosZenith * cos slopeRad
                     + sinZenith * sin slopeRad * cos (azimuthRad - aspectRad)
               in Some (max 0 (min 255 (255 * illumination))))
          | _ \<Rightarrow> None))"

definition hillshade_slope_aspect ::
  "real list \<Rightarrow> int \<Rightarrow> int \<Rightarrow> real \<Rightarrow> HillshadeOptions option \<Rightarrow> error + Grid" where
  "hillshade_slope_aspect d w h cellSize options =
     (case createGrid d w h of
        Inl e \<Rightarrow> Inl e
      | Inr grid \<Rightarrow>
          (case validateSunPosition (sun_altitude options) (sun_azimuth options) of
             Some e \<Rightarrow> Inl e
           | None \<Rightarrow>
               (let azimuthRad = ((360 - sun_azimuth options + 90) * pi) / 180;
                    zenithRad = ((90 - sun_altitude options) * pi) / 180;
                    cosZenith = cos zenithRad;
                    sinZenith = sin zenithRad
                in (case those (pixel_rows w h (\<lambda>x y.
                           computePixelHillshade grid x y cellSize azimuthRad cosZenith sinZenith)) of
                      None \<Rightarrow> Inl DivisionByZero
                    | Some px \<Rightarrow> Inr \<lparr>data = px, width = w, height = h\<rparr>))))"

section \<open>Notions used to state the hillshade properties\<close>

text \<open>The two Sobel sums of a pixel, before scaling by the cell size.\<close>

definition sobel_dx :: "Grid \<Rightarrow> int \<Rightarrow> int \<Rightarrow> real" where
  "sobel_dx grid x y =
     gridGet grid (x + 1) (y - 1) + 2 * gridGet grid (x + 1) y + gridGet grid (x + 1) (y + 1)
     - (gridGet grid (x - 1) (y - 1) + 2 * gridGet grid (x - 1) y + gridGet grid (x - 1) (y + 1))"

definition sobel_dy :: "Grid \<Rightarrow> int \<Rightarrow> int \<Rightarrow> real" where
  "sobel_dy grid x y =
     gridGet grid (x - 1) (y + 1) + 2 * gridGet grid x (y + 1) + gridGet grid (x + 1) (y + 1)
     - (gridGet grid (x - 1) (y - 1) + 2 * gridGet grid x (y - 1) + gridGet grid (x + 1) (y - 1))"

definition clamp255 :: "real \<Rightarrow> real" where
  "clamp255 v = (if v < 0 then 0 else if v > 255 then 255 else v)"

section \<open>GeoJSON features\<close>

text \<open>
  Property values are tagged scalars; a property object is a list of named values,
  \<^verbatim>\<open>{}\<close> the empty list, and \<^verbatim>\<open>properties\<close> of a feature may be \<^verbatim>\<open>null\<close>.
  \<^verbatim>\<open>lineString\<close> and \<^verbatim>\<open>polygon\<close> of \<^verbatim>\<open>@turf/helpers\<close> build the feature
  from its coordinates and properties.
\<close>

datatype PropertyValue = PInt int | PNum real | PBool bool | PStr string

type_synonym Properties = "(string \<times> PropertyValue) list"

record 'g Feature =
  geometry :: 'g
  properties :: "Properties option"

type_synonym LineString = "Position list"

type_synonym Polygon = "Position list list"

definition lineString :: "Position list \<Rightarrow> Properties \<Rightarrow> LineString Feature" where
  "lineString coords props = \<lparr>geometry = coords, properties = Some props\<rparr>"

definition polygon :: "Position list list \<Rightarrow> Properties \<Rightarrow> Polygon Feature" where
  "polygon rings props = \<lparr>geometry = rings, properties = Some props\<rparr>"

text \<open>\<^verbatim>\<open>feature.properties ?? {}\<close>\<close>

definition properties_or_empty :: "'g Feature \<Rightarrow> Properties" where
  "properties_or_empty feature = (case properties feature of None \<Rightarrow> [] | Some p \<Rightarrow> p)"

section \<open>Coordinate transform and clipping (\<^verbatim>\<open>coordinate-transform.ts\<close>)\<close>

definition MVT_EXTENT :: real where
  "MVT_EXTENT = 4096"

definition TILE_SIZE :: real where
  "TILE_SIZE = 256"

record TransformConfig =
  bufferPx :: real
  tileSizePx :: "real option"
  mvtExtent :: "real option"

definition config_tileSizePx :: "TransformConfig \<Rightarrow> real" where
  "config_tileSizePx config = (case tileSizePx config of None \<Rightarrow> TILE_SIZE | Some t \<Rightarrow> t)"

definition config_mvtExtent :: "TransformConfig \<Rightarrow> real" where
  "config_mvtExtent config = (case mvtExtent config of None \<Rightarrow> MVT_EXTENT | Some e \<Rightarrow> e)"

text \<open>The scale is a quotient by the tile size, which nothing checks.\<close>

definition createTransform :: "TransformConfig \<Rightarrow> error + (Position \<Rightarrow> Position)" where
  "createTransform config =
     (case js_div (config_mvtExtent config) (config_tileSizePx config) of
        None \<Rightarrow> Inl DivisionByZero
      | Some scale \<Rightarrow>
          Inr (\<lambda>coord. ((fst coord - bufferPx config) * scale, (snd coord - bufferPx config) * scale)))"

datatype Edge = Left | Right | Top | Bottom

fun isInsideEdge :: "Position \<Rightarrow> Edge \<Rightarrow> real \<Rightarrow> bool" where
  "isInsideEdge p Left edgeValue = (fst p \<ge> edgeValue)"
| "isInsideEdge p Right edgeValue = (fst p \<le> edgeValue)"
| "isInsideEdge p Top edgeValue = (snd p \<ge> edgeValue)"
| "isInsideEdge p Bottom edgeValue = (snd p \<le> edgeValue)"

text \<open>
  The quotients here are by \<open>dx\<close> or \<open>dy\<close>.  The polygon clipper calls the
  function only for two points on different sides of the edge, where the divisor is not
  zero (lemma \<open>intersection_divisor_not_zero\<close>).
\<close>

definition computeEdgeIntersection :: "Position \<Rightarrow> Position \<Rightarrow> Edge \<Rightarrow> real \<Rightarrow> Position" where
  "computeEdgeIntersection p1 p2 edge edgeValue =
     (let x1 = fst p1; y1 = snd p1; x2 = fst p2; y2 = snd p2;
          dx = x2 - x1; dy = y2 - y1
      in (case edge of
            Left \<Rightarrow> (let t = (edgeValue - x1) / dx in (edgeValue, y1 + t * dy))
          | Right \<Rightarrow> (let t = (edgeValue - x1) / dx in (edgeValue, y1 + t * dy))
          | Top \<Rightarrow> (let t = (edgeValue - y1) / dy in (x1 + t * dx, edgeValue))
          | Bottom \<Rightarrow> (let t = (edgeValue - y1) / dy in (x1 + t * dx, edgeValue))))"

text \<open>
  One pass of Sutherland-Hodgman: what the loop body pushes for vertex \<open>i\<close>, and the
  output as the pushes of all vertices in order.
\<close>

definition clip_vertex :: "Position list \<Rightarrow> Edge \<Rightarrow> real \<Rightarrow> nat \<Rightarrow> Position list" where
  "clip_vertex ring edge edgeValue i =
     (let current = ring ! i;
          previous = ring ! ((i + length ring - 1) mod length ring);
          currentInside = isInsideEdge current edge edgeValue;
          previousInside = isInsideEdge previous edge edgeValue
      in if currentInside
         then (if \<not> previousInside
               then [computeEdgeIntersection previous current edge edgeValue] else [])
              @ [current]
         else if previousInside
         then [computeEdgeIntersection previous current edge edgeValue]
         else [])"

definition clipPolygonAgainstEdge :: "Position list \<Rightarrow> Edge \<Rightarrow> real \<Rightarrow> Position list" where
  "clipPolygonAgainstEdge ring edge edgeValue =
     (if length ring = 0 then []
      else concat (map (clip_vertex ring edge edgeValue) [0..<length ring]))"

definition clipPolygonRingToBox ::
  "Position list \<Rightarrow> real \<Rightarrow> real \<Rightarrow> real \<Rightarrow> real \<Rightarrow> Position list" where
  "clipPolygonRingToBox ring minX minY maxX maxY =
     (let result = ring;
          result = clipPolygonAgainstEdge result Left minX;
          result = clipPolygonAgainstEdge result Right maxX;
          result = clipPolygonAgainstEdge result Top minY;
          result = clipPolygonAgainstEdge result Bottom maxY
      in result)"

text \<open>
  The body of the loop over the rings of one feature, on the list
  \<^verbatim>\<open>transformedRings\<close>, and the body of the loop over the features, on
  \<^verbatim>\<open>result\<close>.
\<close>

definition clip_ring_step ::
  "(Position \<Rightarrow> Position) \<Rightarrow> real \<Rightarrow> Position list \<Rightarrow> Position list list \<Rightarrow> Position list list" where
  "clip_ring_step transform extent ring transformedRings =
     (let transformedRing = map transform ring;
          clippedRing = clipPolygonRingToBox transformedRing 0 0 extent extent
      in if length clippedRing \<ge> 4
         then (let first = clippedRing ! 0;
                   lst = clippedRing ! (length clippedRing - 1);
                   clippedRing = (if fst first \<noteq> fst lst \<or> snd first \<noteq> snd lst
                                  then clippedRing @ [first] else clippedRing)
               in transformedRings @ [clippedRing])
         else transformedRings)"

definition clip_feature_step ::
  "(Position \<Rightarrow> Position) \<Rightarrow> real \<Rightarrow> Polygon Feature \<Rightarrow> Polygon Feature list \<Rightarrow> Polygon Feature list" where
  "clip_feature_step transform extent feature result =
     (let rings = geometry feature;
          transformedRings = fold (clip_ring_step transform extent) rings []
      in if length transformedRings > 0
         then result @ [polygon transformedRings (properties_or_empty feature)]
         else result)"

definition transformAndClipPolygonFeatures ::
  "Polygon Feature list \<Rightarrow> TransformConfig \<Rightarrow> error + Polygon Feature list" where
  "transformAndClipPolygonFeatures features config =
     (case createTransform config of
        Inl e \<Rightarrow> Inl e
      | Inr transform \<Rightarrow>
          Inr (fold (clip_feature_step transform (config_mvtExtent config)) features []))"

section \<open>Notions used to state the clipping properties\<close>

text \<open>The point a configuration with a tile size other than zero maps a grid point to.\<close>

definition transform_point :: "TransformConfig \<Rightarrow> Position \<Rightarrow> Position" where
  "transform_point config p =
     ((fst p - bufferPx config) * (config_mvtExtent config / config_tileSizePx config),
      (snd p - bufferPx config) * (config_mvtExtent config / config_tileSizePx config))"

definition clipped_ring :: "TransformConfig \<Rightarrow> Position list \<Rightarrow> Position list" where
  "clipped_ring config ring =
     clipPolygonRingToBox (map (transform_point config) ring)
       0 0 (config_mvtExtent config) (config_mvtExtent config)"

text \<open>A ring with its first vertex appended when the last one differs.\<close>

definition reclosed :: "Position list \<Rightarrow> Position list" where
  "reclosed ring = (if hd ring = last ring then ring else ring @ [hd ring])"

text \<open>
  The rings of a polygon that survive: clipped, those with fewer than four vertices
  dropped, the others reclosed, in their order.
\<close>

definition surviving_rings :: "TransformConfig \<Rightarrow> Polygon \<Rightarrow> Polygon" where
  "surviving_rings config rings =
     map reclosed (filter (\<lambda>r. 4 \<le> length r) (map (clipped_ring config) rings))"

text \<open>What one input feature contributes to the output: nothing, or one polygon.\<close>

definition clipped_feature :: "TransformConfig \<Rightarrow> Polygon Feature \<Rightarrow> Polygon Feature list" where
  "clipped_feature config feature =
     (if surviving_rings config (geometry feature) = [] then []
      else [\<lparr>geometry = surviving_rings config (geometry feature),
             properties = Some (properties_or_empty feature)\<rparr>])"

section \<open>Marching squares (\<^verbatim>\<open>src/lib/dem/contour.ts\<close>)\<close>

type_synonym Coordinate = "real \<times> real"

definition EPSILON :: real where
  "EPSILON = 1 / 10 ^ 10"

text \<open>The quotient in \<open>interpolate\<close> is guarded: it is taken only when \<open>v1 \<noteq> v2\<close>.\<close>

definition interpolate :: "Grid \<Rightarrow> real \<Rightarrow> int \<Rightarrow> int \<Rightarrow> int \<Rightarrow> int \<Rightarrow> Coordinate" where
  "interpolate grid level x1 y1 x2 y2 =
     (let v1 = gridGetAt grid (y1 * width grid + x1);
          v2 = gridGetAt grid (y2 * width grid + x2);
          t = (if \<bar>v2 - v1\<bar> < EPSILON then 1 / 2 else (level - v1) / (v2 - v1));
          t = max EPSILON (min (1 - EPSILON) t)
      in (real_of_int x1 + t * real_of_int (x2 - x1), real_of_int y1 + t * real_of_int (y2 - y1)))"

text \<open>
  One cell.  The \<^verbatim>\<open>switch\<close> is the chain of comparisons of the case index; each
  branch lists its pushes in order.
\<close>

definition processCellMarching :: "Grid \<Rightarrow> real \<Rightarrow> int \<Rightarrow> int \<Rightarrow> bool \<Rightarrow> Coordinate list list" where
  "processCellMarching grid level x y forPolygons =
     (let atTop = (forPolygons \<and> y = height grid - 2);
          atRight = (forPolygons \<and> x = width grid - 2);
          atBottom = (forPolygons \<and> y = 0);
          atLeft = (forPolygons \<and> x = 0);
          tl = (real_of_int x, real_of_int (y + 1));
          tr = (real_of_int (x + 1), real_of_int (y + 1));
          br = (real_of_int (x + 1), real_of_int y);
          bl = (real_of_int x, real_of_int y);
          tm = interpolate grid level x (y + 1) (x + 1) (y + 1);
          rm = interpolate grid level (x + 1) y (x + 1) (y + 1);
          bm = interpolate grid level x y (x + 1) y;
          lm = interpolate grid level x y x (y + 1);
          tlv = gridGetAt grid (y * width grid + x);
          trv = gridGetAt grid (y * width grid + (x + 1));
          brv = gridGetAt grid ((y + 1) * width grid + (x + 1));
          blv = gridGetAt grid ((y + 1) * width grid + x);
          caseIndex = (if tlv \<ge> level then 1 else 0) OR (if trv \<ge> level then 2 else 0)
                      OR (if brv \<ge> level then 4 else 0) OR (if blv \<ge> level then (8::nat) else 0);
          on = (\<lambda>flag seg. if flag then [seg] else [])
      in if caseIndex = 0 then []
         else if caseIndex = 1 then [[lm, bm]] @ on atBottom [bm, bl] @ on atLeft [bl, lm]
         else if caseIndex = 2 then [[bm, rm]] @ on atRight [rm, br] @ on atBottom [br, bm]
         else if caseIndex = 3 then
           [[lm, rm]] @ on atRight [rm, br] @ on atBottom [br, bl] @ on atLeft [bl, lm]
         else if caseIndex = 4 then [[rm, tm]] @ on atTop [tm, tr] @ on atRight [tr, rm]
         else if caseIndex = 5 then
           [[lm, tm]] @ on atTop [tm, tr] @ on atRight [tr, rm]
           @ [[rm, bm]] @ on atBottom [bm, bl] @ on atLeft [bl, lm]
         else if caseIndex = 6 then
           [[bm, tm]] @ on atTop [tm, tr] @ on atRight [tr, br] @ on atBottom [br, bm]
         else if caseIndex = 7 then
           [[lm, tm]] @ on atTop [tm, tr] @ on atRight [tr, br] @ on atBottom [br, bl]
           @ on atLeft [bl, lm]
         else if caseIndex = 8 then [[tm, lm]] @ on atLeft [lm, tl] @ on atTop [tl, tm]
         else if caseIndex = 9 then
           [[tm, bm]] @ on atBottom [bm, bl] @ on atLeft [bl, tl] @ on atTop [tl, tm]
         else if caseIndex = 10 then
           [[bm, lm]] @ on atLeft [lm, tl] @ on atTop [tl, tm]
           @ [[tm, rm]] @ on atRight [rm, br] @ on atBottom [br, bm]
         else if caseIndex = 11 then
           [[tm, rm]] @ on atRight [rm, br] @ on atBottom [br, bl] @ on atLeft [bl, tl]
           @ on atTop [tl, tm]
         else if caseIndex = 12 then
           [[rm, lm]] @ on atLeft [lm, tl] @ on atTop [tl, tr] @ on atRight [tr, rm]
         else if caseIndex = 13 then
           [[rm, bm]] @ on atBottom [bm, bl] @ on atLeft [bl, tl] @ on atTop [tl, tr]
           @ on atRight [tr, rm]
         else if caseIndex = 14 then
           [[bm, lm]] @ on atLeft [lm, tl] @ on atTop [tl, tr] @ on atRight [tr, br]
           @ on atBottom [br, bm]
         else on atTop [tl, tr] @ on atRight [tr, br] @ on atBottom [br, bl] @ on atLeft [bl, tl])"

text \<open>The cells are visited row by row, \<open>x\<close> fastest.\<close>

definition collectSegments :: "Grid \<Rightarrow> real \<Rightarrow> bool \<Rightarrow> Coordinate list list" where
  "collectSegments grid level forPolygons =
     concat (pixel_rows (width grid - 1) (height grid - 1)
               (\<lambda>x y. processCellMarching grid level x y forPolygons))"

subsection \<open>Segment merging\<close>

text \<open>
  The key of a coordinate is the string \<^verbatim>\<open>`${x},${y}`\<close> of its two rounded
  components: the pair of the two integers.
\<close>

type_synonym key = "int \<times> int"

definition coordKey :: "Coordinate \<Rightarrow> key" where
  "coordKey coord = (js_round (fst coord * 1000000), js_round (snd coord * 1000000))"

record Chain =
  coords :: "Coordinate list"
  startKey :: key
  endKey :: key
  merged :: bool

text \<open>
  The chains are objects the two maps share with the array \<^verbatim>\<open>chains\<close>.  A chain
  is referred to by its position in that array; the state of the merge is the array and
  the two maps.  A key a map does not hold has the empty list.
\<close>

type_synonym chain_index = "key \<Rightarrow> nat list"

record MergeState =
  chains :: "Chain list"
  byStart :: chain_index
  byEnd :: chain_index

definition addToIndex :: "chain_index \<Rightarrow> key \<Rightarrow> nat \<Rightarrow> chain_index" where
  "addToIndex index k chain = index(k := index k @ [chain])"

definition removeFromIndex :: "chain_index \<Rightarrow> key \<Rightarrow> nat \<Rightarrow> chain_index" where
  "removeFromIndex index k chain = index(k := remove1 chain (index k))"

text \<open>
  The first candidate of a list that is another chain and not merged; the maps hold
  positions of the array only.
\<close>

definition find_other :: "MergeState \<Rightarrow> nat \<Rightarrow> nat list \<Rightarrow> nat option" where
  "find_other st chain candidates =
     find (\<lambda>other. other \<noteq> chain \<and> other < length (chains st) \<and> \<not> merged (chains st ! other))
       candidates"

text \<open>The four ways \<open>extendChain\<close> joins the other chain to this one.\<close>

definition appendOther :: "nat \<Rightarrow> nat \<Rightarrow> MergeState \<Rightarrow> MergeState" where
  "appendOther chain other st =
     (let c = chains st ! chain; ot = chains st ! other;
          bs = removeFromIndex (byStart st) (startKey ot) other;
          be = removeFromIndex (byEnd st) (endKey ot) other;
          be = removeFromIndex be (endKey c) chain;
          c = c\<lparr>coords := coords c @ tl (coords ot), endKey := endKey ot\<rparr>;
          ot = ot\<lparr>merged := True\<rparr>;
          be = addToIndex be (endKey c) chain
      in \<lparr>chains = (chains st)[chain := c, other := ot], byStart = bs, byEnd = be\<rparr>)"

definition appendReversed :: "nat \<Rightarrow> nat \<Rightarrow> MergeState \<Rightarrow> MergeState" where
  "appendReversed chain other st =
     (let c = chains st ! chain; ot = chains st ! other;
          bs = removeFromIndex (byStart st) (startKey ot) other;
          be = removeFromIndex (byEnd st) (endKey ot) other;
          be = removeFromIndex be (endKey c) chain;
          c = c\<lparr>coords := coords c @ rev (butlast (coords ot)), endKey := startKey ot\<rparr>;
          ot = ot\<lparr>merged := True\<rparr>;
          be = addToIndex be (endKey c) chain
      in \<lparr>chains = (chains st)[chain := c, other := ot], byStart = bs, byEnd = be\<rparr>)"

definition prependOther :: "nat \<Rightarrow> nat \<Rightarrow> MergeState \<Rightarrow> MergeState" where
  "prependOther chain other st =
     (let c = chains st ! chain; ot = chains st ! other;
          bs = removeFromIndex (byStart st) (startKey ot) other;
          be = removeFromIndex (byEnd st) (endKey ot) other;
          bs = removeFromIndex bs (startKey c) chain;
          c = c\<lparr>coords := butlast (coords ot) @ coords c, startKey := startKey ot\<rparr>;
          ot = ot\<lparr>merged := True\<rparr>;
          bs = addToIndex bs (startKey c) chain
      in \<lparr>chains = (chains st)[chain := c, other := ot], byStart = bs, byEnd = be\<rparr>)"

definition prependReversed :: "nat \<Rightarrow> nat \<Rightarrow> MergeState \<Rightarrow> MergeState" where
  "prependReversed chain other st =
     (let c = chains st ! chain; ot = chains st ! other;
          bs = removeFromIndex (byStart st) (startKey ot) other;
          be = removeFromIndex (byEnd st) (endKey ot) other;
          bs = removeFromIndex bs (startKey c) chain;
          c = c\<lparr>coords := rev (tl (coords ot)) @ coords c, startKey := endKey ot\<rparr>;
          ot = ot\<lparr>merged := True\<rparr>;
          bs = addToIndex bs (startKey c) chain
      in \<lparr>chains = (chains st)[chain := c, other := ot], byStart = bs, byEnd = be\<rparr>)"

text \<open>The chains not merged yet: every round of \<open>extendChain\<close> merges one.\<close>

definition unmerged :: "MergeState \<Rightarrow> nat" where
  "unmerged st = length (filter (\<lambda>c. \<not> merged c) (chains st))"

function extendChain :: "nat \<Rightarrow> MergeState \<Rightarrow> MergeState" where
  "extendChain chain st =
     (case find_other st chain (byStart st (endKey (chains st ! chain))) of
        Some other \<Rightarrow> extendChain chain (appendOther chain other st)
      | None \<Rightarrow>
     (case find_other st chain (byEnd st (endKey (chains st ! chain))) of
        Some other \<Rightarrow> extendChain chain (appendReversed chain other st)
      | None \<Rightarrow>
     (case find_other st chain (byEnd st (startKey (chains st ! chain))) of
        Some other \<Rightarrow> extendChain chain (prependOther chain other st)
      | None \<Rightarrow>
     (case find_other st chain (byStart st (startKey (chains st ! chain))) of
        Some other \<Rightarrow> extendChain chain (prependReversed chain other st)
      | None \<Rightarrow> st))))"
  by pat_completeness auto
termination
proof (relation "measure (\<lambda>(chain, st). unmerged st)")
  have upd_count: "length (filter P (xs[i := y])) + (if P (xs ! i) then 1 else 0)
       = length (filter P xs) + (if P y then 1 else 0)"
    if "i < length xs" for P :: "Chain \<Rightarrow> bool" and xs i y
    using that
  proof (induction xs arbitrary: i)
    case Nil
    then show ?case by simp
  next
    case (Cons a xs)
    show ?case
    proof (cases i)
      case 0
      then show ?thesis by simp
    next
      case (Suc j)
      with Cons.prems have "j < length xs" by simp
      from Cons.IH[OF this] Suc show ?thesis by simp
    qed
  qed
  have merge_drops: "length (filter (\<lambda>c. \<not> merged c) (cs[chain := c, other := ot]))
                < length (filter (\<lambda>c. \<not> merged c) cs)"
    if a: "other \<noteq> chain" "other < length cs" "\<not> merged (cs ! other)" "merged ot"
      "merged c = merged (cs ! chain)"
    for cs :: "Chain list" and chain other c ot
  proof -
    define ds where "ds = cs[chain := c]"
    have keep: "length (filter (\<lambda>c. \<not> merged c) ds) = length (filter (\<lambda>c. \<not> merged c) cs)"
    proof (cases "chain < length cs")
      case True
      from upd_count[OF True, of "\<lambda>c. \<not> merged c" c] a(5) show ?thesis
        by (simp add: ds_def split: if_splits)
    next
      case False
      then show ?thesis by (simp add: ds_def list_update_beyond)
    qed
    have o: "other < length ds" "\<not> merged (ds ! other)"
      using a(1-3) by (simp_all add: ds_def)
    from upd_count[OF o(1), of "\<lambda>c. \<not> merged c" ot] o(2) a(4)
    have "length (filter (\<lambda>c. \<not> merged c) (ds[other := ot]))
        < length (filter (\<lambda>c. \<not> merged c) ds)"
      by simp
    then show ?thesis unfolding keep unfolding ds_def .
  qed
  have found: "other \<noteq> chain \<and> other < length (chains st) \<and> \<not> merged (chains st ! other)"
    if "find_other st chain xs = Some other" for st chain xs other
    using that unfolding find_other_def find_Some_iff by blast
  show "wf (measure (\<lambda>(chain, st). unmerged st))" by simp
  show "((chain, appendOther chain other st), chain, st) \<in> measure (\<lambda>(chain, st). unmerged st)"
    if "find_other st chain (byStart st (endKey (chains st ! chain))) = Some other"
    for chain st other
    using found[OF that] by (simp add: unmerged_def appendOther_def Let_def merge_drops)
  show "((chain, appendReversed chain other st), chain, st) \<in> measure (\<lambda>(chain, st). unmerged st)"
    if "find_other st chain (byEnd st (endKey (chains st ! chain))) = Some other"
    for chain st other
    using found[OF that] by (simp add: unmerged_def appendReversed_def Let_def merge_drops)
  show "((chain, prependOther chain other st), chain, st) \<in> measure (\<lambda>(chain, st). unmerged st)"
    if "find_other st chain (byEnd st (startKey (chains st ! chain))) = Some other"
    for chain st other
    using found[OF that] by (simp add: unmerged_def prependOther_def Let_def merge_drops)
  show "((chain, prependReversed chain other st), chain, st) \<in> measure (\<lambda>(chain, st). unmerged st)"
    if "find_other st chain (byStart st (startKey (chains st ! chain))) = Some other"
    for chain st other
    using found[OF that] by (simp add: unmerged_def prependReversed_def Let_def merge_drops)
qed

declare extendChain.simps [simp del]


text \<open>
  \<open>mergeSegments\<close>.  Reading \<^verbatim>\<open>seg[0]\<close> of an empty segment gives
  \<^verbatim>\<open>undefined\<close>, and \<open>coordKey\<close> of it raises.
\<close>

definition initial_chains :: "Coordinate list list \<Rightarrow> Chain list" where
  "initial_chains segments =
     map (\<lambda>seg. \<lparr>coords = seg, startKey = coordKey (seg ! 0),
                  endKey = coordKey (seg ! (length seg - 1)), merged = False\<rparr>) segments"

definition index_chain :: "nat \<Rightarrow> MergeState \<Rightarrow> MergeState" where
  "index_chain chain st =
     st\<lparr>byStart := addToIndex (byStart st) (startKey (chains st ! chain)) chain,
        byEnd := addToIndex (byEnd st) (endKey (chains st ! chain)) chain\<rparr>"

definition extend_unmerged :: "nat \<Rightarrow> MergeState \<Rightarrow> MergeState" where
  "extend_unmerged chain st = (if merged (chains st ! chain) then st else extendChain chain st)"

definition mergeSegments :: "Coordinate list list \<Rightarrow> error + Coordinate list list" where
  "mergeSegments segments =
     (if segments = [] then Inr []
      else if list_ex (\<lambda>seg. seg = []) segments then Inl TypeError
      else
        let st = \<lparr>chains = initial_chains segments, byStart = (\<lambda>k. []), byEnd = (\<lambda>k. [])\<rparr>;
            st = fold index_chain [0..<length segments] st;
            st = fold extend_unmerged [0..<length segments] st
        in Inr (map coords (filter (\<lambda>c. \<not> merged c) (chains st))))"

subsection \<open>Contour lines\<close>

text \<open>\<open>levels\<close> is the array of levels (a single level is the array of it).\<close>

definition trace_level_lines ::
  "Grid \<Rightarrow> real \<Rightarrow> error + LineString Feature list \<Rightarrow> error + LineString Feature list" where
  "trace_level_lines grid level acc =
     (case acc of
        Inl e \<Rightarrow> Inl e
      | Inr features \<Rightarrow>
          (case mergeSegments (collectSegments grid level False) of
             Inl e \<Rightarrow> Inl e
           | Inr lines \<Rightarrow>
               Inr (features @ map (\<lambda>cs. lineString cs [(''level'', PNum level)]) lines)))"

definition traceLines :: "real list \<Rightarrow> int \<Rightarrow> int \<Rightarrow> real list \<Rightarrow> error + LineString Feature list" where
  "traceLines d w h levels =
     (case createGrid d w h of
        Inl e \<Rightarrow> Inl e
      | Inr grid \<Rightarrow> fold (trace_level_lines grid) levels (Inr []))"

subsection \<open>Polygons with holes\<close>

definition coordsEqual :: "Coordinate \<Rightarrow> Coordinate \<Rightarrow> bool" where
  "coordsEqual a b = (\<bar>fst a - fst b\<bar> < EPSILON \<and> \<bar>snd a - snd b\<bar> < EPSILON)"

text \<open>In both loops below \<open>j\<close> is the index before \<open>i\<close>, the last one for \<open>i = 0\<close>.\<close>

definition previous_index :: "nat \<Rightarrow> nat \<Rightarrow> nat" where
  "previous_index n i = (if i = 0 then n - 1 else i - 1)"

definition ringArea :: "Coordinate list \<Rightarrow> real" where
  "ringArea ring =
     fold (\<lambda>i area.
             let j = previous_index (length ring) i
             in area + (fst (ring ! j) - fst (ring ! i)) * (snd (ring ! j) + snd (ring ! i)))
          [0..<length ring] 0 / 2"

text \<open>The quotient is taken only where \<open>yi \<noteq> yj\<close>.\<close>

definition pointInRing :: "Coordinate \<Rightarrow> Coordinate list \<Rightarrow> bool" where
  "pointInRing point ring =
     fold (\<lambda>i inside.
             let j = previous_index (length ring) i;
                 xi = fst (ring ! i); yi = snd (ring ! i);
                 xj = fst (ring ! j); yj = snd (ring ! j)
             in if (yi > snd point) \<noteq> (yj > snd point)
                then (let xIntersect = ((xj - xi) * (snd point - yi)) / (yj - yi) + xi
                      in if fst point < xIntersect then \<not> inside else inside)
                else inside)
          [0..<length ring] False"

definition isInsidePolygon :: "Coordinate \<Rightarrow> Coordinate list \<Rightarrow> Coordinate list list \<Rightarrow> bool" where
  "isInsidePolygon point shell existingHoles =
     (if \<not> pointInRing point shell then False
      else \<not> list_ex (pointInRing point) existingHoles)"

text \<open>\<open>closeRing\<close> of an empty line compares \<^verbatim>\<open>undefined\<close> with itself, which raises.\<close>

definition closeRing :: "Coordinate list \<Rightarrow> error + Coordinate list" where
  "closeRing cs =
     (if cs = [] then Inl TypeError
      else if \<not> coordsEqual (cs ! 0) (cs ! (length cs - 1)) then Inr (cs @ [cs ! 0])
      else Inr cs)"

text \<open>A polygon under construction is its ring and the absolute value of its area.\<close>

definition collect_ring ::
  "Coordinate list \<Rightarrow> error + (Coordinate list \<times> real) list
     \<Rightarrow> error + (Coordinate list \<times> real) list" where
  "collect_ring line acc =
     (case acc of
        Inl e \<Rightarrow> Inl e
      | Inr polys \<Rightarrow>
          (case closeRing line of
             Inl e \<Rightarrow> Inl e
           | Inr ring \<Rightarrow>
               if length ring < 4 then Inr polys
               else (let ring = ring[length ring - 1 := ring ! 0]
                     in Inr (polys @ [(ring, \<bar>ringArea ring\<bar>)]))))"

text \<open>
  \<^verbatim>\<open>polys.sort((a, b) => b.area - a.area)\<close>: by descending area, polygons of the
  same area in their order (the sort is stable).
\<close>

definition sort_polys :: "(Coordinate list \<times> real) list \<Rightarrow> (Coordinate list \<times> real) list" where
  "sort_polys polys = sort_key (\<lambda>p. - snd p) polys"

definition assign_hole ::
  "(Coordinate list \<times> real) list \<Rightarrow> nat \<Rightarrow> nat
     \<Rightarrow> Coordinate list list \<times> nat set \<Rightarrow> Coordinate list list \<times> nat set" where
  "assign_hole polys i j acc =
     (case acc of (holes, used) \<Rightarrow>
        if j \<in> used then (holes, used)
        else (let candidate = polys ! j
              in if isInsidePolygon (fst candidate ! 0) (fst (polys ! i)) holes
                 then (holes @ [fst candidate], insert j used)
                 else (holes, used)))"

definition build_polygon ::
  "(Coordinate list \<times> real) list \<Rightarrow> real \<Rightarrow> nat
     \<Rightarrow> Polygon Feature list \<times> nat set \<Rightarrow> Polygon Feature list \<times> nat set" where
  "build_polygon polys level i acc =
     (case acc of (result, used) \<Rightarrow>
        if i \<in> used then (result, used)
        else (case fold (assign_hole polys i) [i + 1..<length polys] ([], used) of
                (holes, used) \<Rightarrow>
                  (result @ [polygon (fst (polys ! i) # holes) [(''level'', PNum level)]],
                   insert i used)))"

definition buildPolygonsWithHoles ::
  "Coordinate list list \<Rightarrow> real \<Rightarrow> error + Polygon Feature list" where
  "buildPolygonsWithHoles lines level =
     (case fold collect_ring lines (Inr []) of
        Inl e \<Rightarrow> Inl e
      | Inr polys \<Rightarrow>
          (let polys = sort_polys polys
           in Inr (fst (fold (build_polygon polys level) [0..<length polys] ([], {})))))"

definition trace_level_polygons ::
  "Grid \<Rightarrow> real \<Rightarrow> error + Polygon Feature list \<Rightarrow> error + Polygon Feature list" where
  "trace_level_polygons grid level acc =
     (case acc of
        Inl e \<Rightarrow> Inl e
      | Inr features \<Rightarrow>
          (case mergeSegments (collectSegments grid level True) of
             Inl e \<Rightarrow> Inl e
           | Inr lines \<Rightarrow>
               (case buildPolygonsWithHoles lines level of
                  Inl e \<Rightarrow> Inl e
                | Inr polygons \<Rightarrow> Inr (features @ polygons))))"

definition tracePolygons :: "real list \<Rightarrow> int \<Rightarrow> int \<Rightarrow> real list \<Rightarrow> error + Polygon Feature list" where
  "tracePolygons d w h levels =
     (case createGrid d w h of
        Inl e \<Rightarrow> Inl e
      | Inr grid \<Rightarrow> fold (trace_level_polygons grid) levels (Inr []))"

subsection \<open>The case table of the specification\<close>

text \<open>
  The case index of a cell from its four corner flags, and the table of interior
  segments by case for the unit cell at the origin, whose edge midpoints are
  \<open>lm = (0, 1/2)\<close>, \<open>tm = (1/2, 1)\<close>, \<open>rm = (1, 1/2)\<close> and \<open>bm = (1/2, 0)\<close>.
\<close>

definition case_index :: "bool \<Rightarrow> bool \<Rightarrow> bool \<Rightarrow> bool \<Rightarrow> nat" where
  "case_index TL TR BR BL =
     (if TL then 1 else 0) + (if TR then 2 else 0) + (if BR then 4 else 0) + (if BL then 8 else 0)"

definition appendix_A :: "nat \<Rightarrow> Coordinate list list" where
  "appendix_A k =
     (let lm = (0, 1 / 2); tm = (1 / 2, 1); rm = (1, 1 / 2); bm = (1 / 2, 0)
      in if k = 1 then [[lm, bm]]
         else if k = 2 then [[bm, rm]]
         else if k = 3 then [[lm, rm]]
         else if k = 4 then [[rm, tm]]
         else if k = 5 then [[lm, tm], [rm, bm]]
         else if k = 6 then [[bm, tm]]
         else if k = 7 then [[lm, tm]]
         else if k = 8 then [[tm, lm]]
         else if k = 9 then [[tm, bm]]
         else if k = 10 then [[bm, lm], [tm, rm]]
         else if k = 11 then [[tm, rm]]
         else if k = 12 then [[rm, lm]]
         else if k = 13 then [[rm, bm]]
         else if k = 14 then [[bm, lm]]
         else [])"

section \<open>Proofs: rounding to doubles\<close>

lemma round_half_even_bounds:
  "\<bar>of_int (round_half_even q) - q\<bar> \<le> 1 / 2"
  "\<lfloor>q\<rfloor> \<le> round_half_even q" "round_half_even q \<le> \<lceil>q\<rceil>"
proof -
  show "\<bar>of_int (round_half_even q) - q\<bar> \<le> 1 / 2"
    unfolding round_half_even_def Let_def by (auto; linarith)
  show "\<lfloor>q\<rfloor> \<le> round_half_even q"
    unfolding round_half_even_def Let_def by auto
  show "round_half_even q \<le> \<lceil>q\<rceil>"
    unfolding round_half_even_def Let_def by (auto; linarith)
qed

lemma round_half_even_of_int [simp]: "round_half_even (of_int n) = n"
  by (simp add: round_half_even_def)

lemma exponent_bounds:
  assumes "x \<noteq> 0"
  shows "2 powi exponent x \<le> \<bar>x\<bar>" and "\<bar>x\<bar> < 2 powi (exponent x + 1)"
proof -
  have "2 powi exponent x \<le> \<bar>x\<bar> \<and> \<bar>x\<bar> < 2 powi (exponent x + 1)"
  proof (cases "1 \<le> \<bar>x\<bar>")
    case True
    define n where "n = \<lfloor>\<bar>x\<bar>\<rfloor>"
    have n: "0 < n" using True unfolding n_def by linarith
    from bitlen_bounds[OF n] have b: "2 ^ nat (bitlen n - 1) \<le> n" "n < 2 ^ nat (bitlen n)"
      by simp_all
    have bl: "1 \<le> bitlen n" using n b(2)
      by (smt (verit) nat_le_0 power_0)
    have e: "exponent x = bitlen n - 1" using True by (simp add: exponent_def n_def)
    have "2 powi (bitlen n - 1) = (2::real) ^ nat (bitlen n - 1)"
      using bl by (simp add: power_int_nonneg_exp)
    also have "\<dots> = of_int (2 ^ nat (bitlen n - 1))" by simp
    also have "\<dots> \<le> of_int n" using b(1) by (simp only: of_int_le_iff)
    also have "\<dots> \<le> \<bar>x\<bar>" unfolding n_def by simp
    finally have lo: "2 powi (bitlen n - 1) \<le> \<bar>x\<bar>" .
    have "n + 1 \<le> 2 ^ nat (bitlen n)" using b(2) by simp
    then have "of_int (n + 1) \<le> (of_int (2 ^ nat (bitlen n)) :: real)" by (simp only: of_int_le_iff)
    moreover have "\<bar>x\<bar> < of_int (n + 1)" unfolding n_def by linarith
    ultimately have "\<bar>x\<bar> < 2 ^ nat (bitlen n)" by simp
    also have "\<dots> = 2 powi (bitlen n)" using bl by (simp add: power_int_nonneg_exp)
    finally show ?thesis using lo unfolding e by simp
  next
    case False
    then have lt: "\<bar>x\<bar> < 1" by simp
    define y where "y = 1 / \<bar>x\<bar>"
    have y: "1 < y" using lt assms by (simp add: y_def)
    define n where "n = \<lceil>y\<rceil> - 1"
    have n: "0 < n" using y unfolding n_def by linarith
    have ny: "of_int n < y" "y \<le> of_int n + 1" unfolding n_def by linarith+
    from bitlen_bounds[OF n] have b: "2 ^ nat (bitlen n - 1) \<le> n" "n < 2 ^ nat (bitlen n)"
      by simp_all
    have bl: "1 \<le> bitlen n" using n b(2)
      by (smt (verit) nat_le_0 power_0)
    have e: "exponent x = - bitlen n" using False by (simp add: exponent_def n_def y_def)
    have "n + 1 \<le> 2 ^ nat (bitlen n)" using b(2) by simp
    then have "of_int (n + 1) \<le> (of_int (2 ^ nat (bitlen n)) :: real)" by (simp only: of_int_le_iff)
    then have "y \<le> 2 ^ nat (bitlen n)" using ny(2) by simp
    also have "\<dots> = 2 powi (bitlen n)" using bl by (simp add: power_int_nonneg_exp)
    finally have "y \<le> 2 powi (bitlen n)" .
    then have "1 / 2 powi (bitlen n) \<le> 1 / y"
      using y by (intro divide_left_mono) simp_all
    then have lo: "2 powi (- bitlen n) \<le> \<bar>x\<bar>"
      using assms by (simp add: y_def power_int_minus_divide)
    have "(2::real) ^ nat (bitlen n - 1) = of_int (2 ^ nat (bitlen n - 1))" by simp
    also have "\<dots> \<le> of_int n" using b(1) by (simp only: of_int_le_iff)
    also have "\<dots> < y" by (rule ny(1))
    finally have "2 powi (bitlen n - 1) < y" using bl by (simp add: power_int_nonneg_exp)
    then have "1 / y < 1 / 2 powi (bitlen n - 1)"
      using y by (intro divide_strict_left_mono mult_pos_pos) simp_all
    then have "\<bar>x\<bar> < 2 powi (- (bitlen n - 1))"
      using assms unfolding power_int_minus_divide[of 2 "bitlen n - 1"] by (simp add: y_def)
    then show ?thesis using lo unfolding e by (simp add: algebra_simps)
  qed
  then show "2 powi exponent x \<le> \<bar>x\<bar>" and "\<bar>x\<bar> < 2 powi (exponent x + 1)" by simp_all
qed


lemma two_powi_pos [simp]: "0 < (2::real) powi n"
  by (rule zero_less_power_int) simp

lemma two_powi_split: "(2::real) powi a = 2 powi (a - b) * 2 powi b"
  using power_int_add[of "2::real" "a - b" b] by simp

lemma exponent_less:
  assumes "x \<noteq> 0" "\<bar>x\<bar> < 2 powi n"
  shows "exponent x < n"
proof (rule ccontr)
  assume "\<not> exponent x < n"
  then have "(2::real) powi n \<le> 2 powi exponent x"
    by (intro power_int_increasing) simp_all
  with exponent_bounds(1)[OF assms(1)] assms(2) show False by linarith
qed

lemma exponent_ge:
  assumes "2 powi n \<le> \<bar>x\<bar>"
  shows "n \<le> exponent x"
proof (rule ccontr)
  assume "\<not> n \<le> exponent x"
  then have "(2::real) powi (exponent x + 1) \<le> 2 powi n"
    by (intro power_int_increasing) simp_all
  moreover have "x \<noteq> 0"
  proof
    assume "x = 0"
    with assms have "(2::real) powi n \<le> 0" by simp
    with two_powi_pos[of n] show False by linarith
  qed
  ultimately show False using exponent_bounds(2)[of x] assms by linarith
qed

lemma exponent_eqI:
  assumes "2 powi e \<le> \<bar>x\<bar>" "\<bar>x\<bar> < 2 powi (e + 1)"
  shows "exponent x = e"
proof -
  have "x \<noteq> 0"
  proof
    assume "x = 0"
    with assms(1) have "(2::real) powi e \<le> 0" by simp
    with two_powi_pos[of e] show False by linarith
  qed
  from exponent_less[OF this assms(2)] exponent_ge[OF assms(1)] show ?thesis by simp
qed

lemma fl_zero [simp]: "fl 0 = 0"
  using round_half_even_of_int[of 0] by (simp add: fl_def)

lemma fl_multiple:
  assumes "x = of_int m * 2 powi ulp_exponent x"
  shows "fl x = x"
proof -
  have "x / 2 powi ulp_exponent x = of_int m"
    by (subst assms) simp
  then show ?thesis unfolding fl_def using assms by simp
qed

lemma fl_exactI:
  assumes x: "x = of_int m * 2 powi k" and m: "\<bar>m\<bar> \<le> 2 ^ 53" and k: "- 1074 \<le> k"
  shows "fl x = x"
proof (cases "m = 0")
  case True
  then show ?thesis using x by simp
next
  case False
  then have nz: "x \<noteq> 0" using x by simp
  have ax: "\<bar>x\<bar> = of_int \<bar>m\<bar> * 2 powi k"
    unfolding x by (simp add: abs_mult)
  show ?thesis
  proof (cases "\<bar>m\<bar> = 2 ^ 53")
    case True
    have "\<bar>x\<bar> = 2 powi (53 + k)"
      unfolding ax True using power_int_add[of "2::real" 53 k] by simp
    then have "exponent x = 53 + k"
      by (intro exponent_eqI) (simp_all add: power_int_strict_increasing)
    then have u: "ulp_exponent x = k + 1"
      using k by (simp add: ulp_exponent_def)
    obtain h where h: "m = 2 * h"
      using True by (metis abs_minus_cancel dvd_def even_abs_add_iff even_add even_numeral
          even_power zero_less_numeral)
    have p: "2 powi ulp_exponent x = (2::real) * 2 powi k"
      unfolding u using power_int_add[of "2::real" k 1] by simp
    have "x = of_int h * (2 * 2 powi k)"
      unfolding x h by simp
    then have "x = of_int h * 2 powi ulp_exponent x"
      unfolding p .
    then show ?thesis by (rule fl_multiple)
  next
    case lt: False
    with m have "\<bar>m\<bar> < 2 ^ 53" by simp
    then have "of_int \<bar>m\<bar> < (of_int (2 ^ 53) :: real)" by (simp only: of_int_less_iff)
    then have "\<bar>x\<bar> < 2 ^ 53 * 2 powi k"
      unfolding ax by simp
    also have "\<dots> = 2 powi (53 + k)"
      using power_int_add[of "2::real" 53 k] by simp
    finally have "exponent x < 53 + k" by (rule exponent_less[OF nz])
    then have u: "ulp_exponent x \<le> k"
      using k by (simp add: ulp_exponent_def)
    define d where "d = nat (k - ulp_exponent x)"
    have "(2::real) powi k = 2 powi (k - ulp_exponent x) * 2 powi ulp_exponent x"
      by (rule two_powi_split)
    also have "(2::real) powi (k - ulp_exponent x) = 2 ^ d"
      using u by (simp add: d_def power_int_nonneg_exp)
    finally have p: "(2::real) powi k = 2 ^ d * 2 powi ulp_exponent x" .
    have "x = of_int (m * 2 ^ d) * 2 powi ulp_exponent x"
      by (subst x, subst p) simp
    then show ?thesis by (rule fl_multiple)
  qed
qed




lemma round_half_even_minus: "round_half_even (- q) = - round_half_even q"
proof (cases "q = of_int \<lfloor>q\<rfloor>")
  case True
  then obtain n where "q = of_int n" ..
  then have "- q = of_int (- n)" by simp
  then show ?thesis unfolding \<open>q = of_int n\<close>
    by (metis round_half_even_of_int)
next
  case False
  then have c: "\<lceil>q\<rceil> = \<lfloor>q\<rfloor> + 1"
    by (metis ceiling_altdef)
  have f: "\<lfloor>- q\<rfloor> = - \<lfloor>q\<rfloor> - 1"
    using c by (simp add: ceiling_def)
  show ?thesis
    unfolding round_half_even_def Let_def f by auto
qed

lemma exponent_minus [simp]: "exponent (- x) = exponent x"
  by (simp add: exponent_def)

lemma fl_minus: "fl (- x) = - fl x"
  by (simp add: fl_def ulp_exponent_def round_half_even_minus)


lemma fl_eval:
  assumes "2 powi e \<le> \<bar>x\<bar>" "\<bar>x\<bar> < 2 powi (e + 1)" "- 1022 \<le> e"
  shows "fl x = of_int (round_half_even (x / 2 powi (e - 52))) * 2 powi (e - 52)"
proof -
  have "exponent x = e" using assms(1,2) by (rule exponent_eqI)
  then have "ulp_exponent x = e - 52" using assms(3) by (simp add: ulp_exponent_def)
  then show ?thesis by (simp add: fl_def)
qed

lemma fl_mantissa:
  assumes "fl y = y"
  obtains m where "y = of_int m * 2 powi ulp_exponent y"
proof -
  have "y = of_int (round_half_even (y / 2 powi ulp_exponent y)) * 2 powi ulp_exponent y"
    using assms unfolding fl_def by simp
  then show ?thesis by (rule that)
qed

lemma fl_le_double:
  assumes xy: "x \<le> y" and y: "fl y = y"
  shows "fl x \<le> y"
proof (cases "x = 0")
  case True
  then show ?thesis using xy by simp
next
  case nz: False
  define u where "u = (2::real) powi ulp_exponent x"
  define q where "q = x / u"
  have u: "0 < u" by (simp add: u_def)
  have flx: "fl x = of_int (round_half_even q) * u"
    by (simp add: fl_def u_def q_def)
  have "of_int (round_half_even q) \<le> (of_int \<lceil>q\<rceil> :: real)"
    using round_half_even_bounds(3)[of q] by (simp only: of_int_le_iff)
  then have up: "fl x \<le> of_int \<lceil>q\<rceil> * u"
    unfolding flx using u by (intro mult_right_mono) simp_all
  show ?thesis
  proof (cases "ulp_exponent x \<le> ulp_exponent y")
    case True
    from fl_mantissa[OF y] obtain m where m: "y = of_int m * 2 powi ulp_exponent y" .
    define d where "d = nat (ulp_exponent y - ulp_exponent x)"
    have "(2::real) powi ulp_exponent y = 2 powi (ulp_exponent y - ulp_exponent x) * u"
      unfolding u_def by (rule two_powi_split)
    also have "(2::real) powi (ulp_exponent y - ulp_exponent x) = 2 ^ d"
      using True by (simp add: d_def power_int_nonneg_exp)
    finally have p: "(2::real) powi ulp_exponent y = 2 ^ d * u" .
    have yM: "y = of_int (m * 2 ^ d) * u"
      by (subst m, subst p) simp
    have "q \<le> y / u" unfolding q_def using xy u by (simp add: divide_right_mono)
    also have "y / u = of_int (m * 2 ^ d)" using u by (subst yM) simp
    finally have "\<lceil>q\<rceil> \<le> m * 2 ^ d" by (simp only: ceiling_le_iff)
    then have "(of_int \<lceil>q\<rceil> :: real) \<le> of_int (m * 2 ^ d)" by (simp only: of_int_le_iff)
    then have "of_int \<lceil>q\<rceil> * u \<le> of_int (m * 2 ^ d) * u"
      using u by (intro mult_right_mono) simp_all
    with up yM show ?thesis by simp
  next
    case False
    then have ux: "ulp_exponent x = exponent x - 52" and exy: "exponent y < exponent x"
      by (simp_all add: ulp_exponent_def max_def split: if_splits)
    have ylt: "\<bar>y\<bar> < 2 powi exponent x"
    proof (cases "y = 0")
      case True
      then show ?thesis by simp
    next
      case False
      have "\<bar>y\<bar> < 2 powi (exponent y + 1)" by (rule exponent_bounds(2)[OF False])
      also have "\<dots> \<le> 2 powi exponent x"
        using exy by (intro power_int_increasing) simp_all
      finally show ?thesis .
    qed
    have xge: "2 powi exponent x \<le> \<bar>x\<bar>" by (rule exponent_bounds(1)[OF nz])
    have neg: "x < 0" using xy ylt xge by linarith
    then have xle: "x \<le> - (2 powi exponent x)" using xge by simp
    have e: "(2::real) powi exponent x = 2 ^ 52 * u"
      unfolding u_def ux using two_powi_split[of "exponent x" "exponent x - 52"] by simp
    have "q \<le> - (2 powi exponent x) / u"
      unfolding q_def using xle u by (intro divide_right_mono) simp_all
    also have "\<dots> = of_int (- (2 ^ 52))" unfolding e using u by simp
    finally have "\<lceil>q\<rceil> \<le> - (2 ^ 52)" by (simp only: ceiling_le_iff)
    then have "(of_int \<lceil>q\<rceil> :: real) \<le> of_int (- (2 ^ 52))" by (simp only: of_int_le_iff)
    then have "of_int \<lceil>q\<rceil> * u \<le> of_int (- (2 ^ 52)) * u"
      using u by (intro mult_right_mono) simp_all
    also have "\<dots> = - (2 powi exponent x)" unfolding e by simp
    finally have "fl x \<le> - (2 powi exponent x)" using up by simp
    with ylt show ?thesis by linarith
  qed
qed

lemma fl_ge_double:
  assumes "y \<le> x" and "fl y = y"
  shows "y \<le> fl x"
proof -
  have "fl (- y) = - y" using assms(2) by (simp add: fl_minus)
  from fl_le_double[of "- x" "- y", OF _ this] assms(1) show ?thesis by (simp add: fl_minus)
qed

lemma to_number_double:
  assumes "is_double x"
  shows "to_number x = Finite x"
  using assms by (auto simp: to_number_def is_double_def)

lemma MAX_VALUE_ge: "2 ^ 53 \<le> MAX_VALUE"
  by (simp add: MAX_VALUE_def)

lemma is_double_dyadic:
  assumes x: "x = of_int m * 2 powi k" and m: "\<bar>m\<bar> \<le> 2 ^ 53" and k: "- 1074 \<le> k" "k \<le> 970"
  shows "is_double x"
proof -
  have "fl x = x" using x m k(1) by (rule fl_exactI)
  moreover have "\<bar>x\<bar> \<le> MAX_VALUE"
  proof -
    have "\<bar>of_int m :: real\<bar> \<le> of_int (2 ^ 53)"
      using m by (simp only: of_int_abs[symmetric] of_int_le_iff)
    moreover have "(2::real) powi k \<le> 2 powi 970"
      using k(2) by (intro power_int_increasing) simp_all
    ultimately have "\<bar>of_int m :: real\<bar> * 2 powi k \<le> of_int (2 ^ 53) * 2 powi 970"
      by (intro mult_mono) simp_all
    moreover have "\<bar>x\<bar> = \<bar>of_int m :: real\<bar> * 2 powi k"
      unfolding x by (simp add: abs_mult)
    moreover have "of_int (2 ^ 53) * 2 powi 970 \<le> MAX_VALUE"
      by (simp add: MAX_VALUE_def)
    ultimately show ?thesis by linarith
  qed
  ultimately show ?thesis by (simp add: is_double_def)
qed

lemma is_double_of_int:
  assumes "\<bar>m\<bar> \<le> 2 ^ 53"
  shows "is_double (of_int m)"
proof -
  have "fl (of_int m) = of_int m"
    by (rule fl_exactI[where m = m and k = 0]) (use assms in simp_all)
  moreover have "\<bar>of_int m :: real\<bar> \<le> of_int (2 ^ 53)"
    using assms by (simp only: of_int_abs[symmetric] of_int_le_iff)
  ultimately show ?thesis using MAX_VALUE_ge by (simp add: is_double_def)
qed

lemma number_le_less:
  assumes "number_le a b" "number_less b c"
  shows "number_less a c"
  using assms by (cases a; cases b; cases c) simp_all

lemma number_add_stays_below:
  assumes m: "is_number mn" and l: "number_le level mn" and i: "number_le interval (Finite 0)"
    and x: "number_less mn mx"
  shows "number_le (number_add level interval) mn"
proof (cases level)
  case (Finite a)
  show ?thesis
  proof (cases interval)
    case i': (Finite b)
    with i have b: "b \<le> 0" by simp
    show ?thesis
    proof (cases mn)
      case m': (Finite c)
      with m have c: "fl c = c" "\<bar>c\<bar> \<le> MAX_VALUE" by (simp_all add: is_double_def)
      from l Finite m' have "a \<le> c" by simp
      with b have "a + b \<le> c" by simp
      from fl_le_double[OF this c(1)] c(2) show ?thesis
        unfolding Finite i' m' by (simp add: to_number_def)
    next
      case PlusInfinity
      then show ?thesis unfolding Finite i' by (simp add: to_number_def)
    next
      case MinusInfinity
      with l Finite show ?thesis by simp
    next
      case NaN
      with l Finite show ?thesis by simp
    qed
  next
    case PlusInfinity
    with i show ?thesis by simp
  next
    case MinusInfinity
    with l Finite show ?thesis by (cases mn) simp_all
  next
    case NaN
    with i show ?thesis by simp
  qed
next
  case PlusInfinity
  with l x show ?thesis by (cases mn; cases mx) simp_all
next
  case MinusInfinity
  with l i show ?thesis by (cases mn; cases interval) simp_all
next
  case NaN
  with l show ?thesis by simp
qed

section \<open>Proofs: level generation\<close>

lemma generateLevels_loop_diverges:
  assumes m: "is_number mn"
    and r: "generateLevels_loop level mx interval levels = Some r"
  shows "\<not> (number_le interval (Finite 0) \<and> number_le level mn \<and> number_less mn mx)"
proof (rule generateLevels_loop.raw_induct
    [where P = "\<lambda>level mx interval levels r.
       \<not> (number_le interval (Finite 0) \<and> number_le level mn \<and> number_less mn mx)", OF _ r])
  fix f :: "number \<Rightarrow> number \<Rightarrow> number \<Rightarrow> number list \<Rightarrow> number list option"
    and level mx interval :: number and levels r :: "number list"
  assume IH: "\<And>l m i ls y. f l m i ls = Some y \<Longrightarrow>
        \<not> (number_le i (Finite 0) \<and> number_le l mn \<and> number_less mn m)"
    and body: "(if number_less level mx
      then f (number_add level interval) mx interval (levels @ [level])
      else Some levels) = Some r"
  show "\<not> (number_le interval (Finite 0) \<and> number_le level mn \<and> number_less mn mx)"
  proof
    assume a: "number_le interval (Finite 0) \<and> number_le level mn \<and> number_less mn mx"
    then have "number_less level mx" using number_le_less by blast
    with body have "f (number_add level interval) mx interval (levels @ [level]) = Some r" by simp
    from IH[OF this] a have "\<not> number_le (number_add level interval) mn" by simp
    with number_add_stays_below[OF m, of level interval mx] a show False by blast
  qed
qed

lemma generateLevels_loop_steps:
  assumes "0 < interval"
  shows "nat \<lceil>(mx - level) / interval\<rceil> = n \<Longrightarrow>
     (\<And>k. 1 \<le> k \<Longrightarrow> k \<le> n \<Longrightarrow> is_double (level + real k * interval)) \<Longrightarrow>
     generateLevels_loop (Finite level) (Finite mx) (Finite interval) levels =
       Some (levels @ map (\<lambda>k. Finite (level + real k * interval)) [0..<n])"
proof (induction n arbitrary: level levels)
  case 0
  then have "(mx - level) / interval \<le> 0" by simp
  with assms have "\<not> level < mx" by (simp add: divide_le_0_iff)
  then show ?case by (subst generateLevels_loop.simps) simp
next
  case (Suc n)
  then have pos: "0 < \<lceil>(mx - level) / interval\<rceil>" by linarith
  then have "0 < (mx - level) / interval" by linarith
  with assms have lt: "level < mx" by (simp add: zero_less_divide_iff)
  have "(mx - (level + interval)) / interval = (mx - level) / interval - 1"
    using assms by (simp add: field_simps)
  then have n: "nat \<lceil>(mx - (level + interval)) / interval\<rceil> = n"
    using Suc.prems(1) by simp
  have d: "is_double (level + interval + real k * interval)" if "1 \<le> k" "k \<le> n" for k
    using Suc.prems(2)[of "Suc k"] that by (simp add: algebra_simps)
  have "is_double (level + interval)"
    using Suc.prems(2)[of 1] by simp
  then have step: "to_number (level + interval) = Finite (level + interval)"
    by (rule to_number_double)
  from Suc.IH[OF n d, of "levels @ [Finite level]"]
  have "generateLevels_loop (Finite (level + interval)) (Finite mx) (Finite interval)
          (levels @ [Finite level]) =
        Some (levels @ Finite level # map (\<lambda>k. Finite (level + interval + real k * interval)) [0..<n])"
    by simp
  moreover have "map (\<lambda>k. Finite (level + real k * interval)) [0..<Suc n] =
      Finite level # map (\<lambda>k. Finite (level + interval + real k * interval)) [0..<n]"
    by (simp add: upt_conv_Cons map_Suc_upt[symmetric] algebra_simps del: upt_Suc)
  ultimately show ?case using lt
    by (subst generateLevels_loop.simps) (simp add: step del: upt_Suc)
qed

lemma absorbed_step: "number_add (Finite (10 ^ 16)) (Finite 1) = Finite (10 ^ 16)"
proof -
  have e: "fl (10 ^ 16 + 1) = of_int (round_half_even ((10 ^ 16 + 1) / 2 powi (53 - 52))) * 2 powi (53 - 52)"
    by (rule fl_eval) simp_all
  have "round_half_even (10000000000000001 / 2) = 5000000000000000"
    by (simp add: round_half_even_def)
  then have "fl (10 ^ 16 + 1) = 10 ^ 16"
    unfolding e by simp
  then show ?thesis by (simp add: to_number_def MAX_VALUE_def)
qed

lemma generateLevels_loop_absorbed:
  assumes r: "generateLevels_loop level mx interval levels = Some r"
  shows "\<not> (level = Finite (10 ^ 16) \<and> mx = Finite (10 ^ 16 + 4) \<and> interval = Finite 1)"
proof (rule generateLevels_loop.raw_induct
    [where P = "\<lambda>level mx interval levels r.
       \<not> (level = Finite (10 ^ 16) \<and> mx = Finite (10 ^ 16 + 4) \<and> interval = Finite 1)", OF _ r])
  fix f :: "number \<Rightarrow> number \<Rightarrow> number \<Rightarrow> number list \<Rightarrow> number list option"
    and level mx interval :: number and levels r :: "number list"
  assume IH: "\<And>l m i ls y. f l m i ls = Some y \<Longrightarrow>
        \<not> (l = Finite (10 ^ 16) \<and> m = Finite (10 ^ 16 + 4) \<and> i = Finite 1)"
    and body: "(if number_less level mx
      then f (number_add level interval) mx interval (levels @ [level])
      else Some levels) = Some r"
  show "\<not> (level = Finite (10 ^ 16) \<and> mx = Finite (10 ^ 16 + 4) \<and> interval = Finite 1)"
  proof
    assume a: "level = Finite (10 ^ 16) \<and> mx = Finite (10 ^ 16 + 4) \<and> interval = Finite 1"
    then have "number_less level mx" by simp
    with body have "f (number_add level interval) mx interval (levels @ [level]) = Some r" by simp
    from IH[OF this] a absorbed_step show False by simp
  qed
qed


lemma level_below_max_iff:
  assumes "0 < interval"
  shows "(mn + real k * interval < mx) = (k < nat \<lceil>(mx - mn) / interval\<rceil>)"
proof -
  have "(mn + real k * interval < mx) = (real k < (mx - mn) / interval)"
    using assms by (simp add: field_simps)
  also have "\<dots> = (int k < \<lceil>(mx - mn) / interval\<rceil>)"
    by (simp add: less_ceiling_iff)
  also have "\<dots> = (k < nat \<lceil>(mx - mn) / interval\<rceil>)" by linarith
  finally show ?thesis .
qed

lemma levels_strictly_increasing:
  assumes "0 < interval"
  shows "sorted_wrt (<) (map (\<lambda>k. mn + real k * interval) [0..<n])"
  using assms by (simp add: sorted_wrt_map sorted_wrt_upt strict_sorted_iff[symmetric]
      sorted_wrt_mono_rel[of "[0..<n]" "(<)"])

text \<open>
  C10 (as amended).  With a positive interval, if the sums \<open>min + k \<cdot> interval\<close> up to
  the first one that is not below \<open>max\<close> are doubles (so that no addition rounds),
  \<open>generateLevels\<close> returns, and what it returns is the strictly increasing list
  \<open>min, min + interval, \<dots>\<close> of exactly the values of that progression below
  \<open>max\<close> (none when \<open>max \<le> min\<close>).  With an interval that is not positive and
  \<open>min < max\<close> the loop never returns, whatever the numbers.
\<close>

theorem generateLevels_returns_on_exact_sums:
  "(0 < interval \<and> (\<forall>k \<le> nat \<lceil>(mx - mn) / interval\<rceil>. is_double (mn + real k * interval)) \<longrightarrow>
      generateLevels (Finite mn) (Finite mx) (Finite interval) =
        Some (map (\<lambda>k. Finite (mn + real k * interval)) [0..<nat \<lceil>(mx - mn) / interval\<rceil>])
      \<and> (\<forall>k. (mn + real k * interval < mx) = (k < nat \<lceil>(mx - mn) / interval\<rceil>))
      \<and> sorted_wrt (<) (map (\<lambda>k. mn + real k * interval) [0..<nat \<lceil>(mx - mn) / interval\<rceil>])
      \<and> (mx \<le> mn \<longrightarrow> generateLevels (Finite mn) (Finite mx) (Finite interval) = Some []))
   \<and> (is_number a \<and> number_le i (Finite 0) \<and> number_less a b \<longrightarrow> generateLevels a b i = None)"
proof (intro conjI impI allI)
  assume h: "0 < interval \<and> (\<forall>k \<le> nat \<lceil>(mx - mn) / interval\<rceil>. is_double (mn + real k * interval))"
  then have pos: "0 < interval" by simp
  show run: "generateLevels (Finite mn) (Finite mx) (Finite interval) =
      Some (map (\<lambda>k. Finite (mn + real k * interval)) [0..<nat \<lceil>(mx - mn) / interval\<rceil>])"
    using generateLevels_loop_steps[OF pos refl, where mx = mx and level = mn and levels = "[]"] h
    by (simp add: generateLevels_def)
  show "(mn + real k * interval < mx) = (k < nat \<lceil>(mx - mn) / interval\<rceil>)" for k
    by (rule level_below_max_iff[OF pos])
  show "sorted_wrt (<) (map (\<lambda>k. mn + real k * interval) [0..<nat \<lceil>(mx - mn) / interval\<rceil>])"
    by (rule levels_strictly_increasing[OF pos])
  assume "mx \<le> mn"
  with pos have "(mx - mn) / interval \<le> 0" by (simp add: divide_le_0_iff)
  then have "nat \<lceil>(mx - mn) / interval\<rceil> = 0" by simp
  with run show "generateLevels (Finite mn) (Finite mx) (Finite interval) = Some []" by simp
next
  assume c: "is_number a \<and> number_le i (Finite 0) \<and> number_less a b"
  have le: "number_le a a" using c by (cases a; cases b) simp_all
  show "generateLevels a b i = None"
  proof (cases "generateLevels a b i")
    case (Some r)
    then show ?thesis using generateLevels_loop_diverges[of a a b i "[]" r] c le
      by (simp add: generateLevels_def)
  qed simp
qed

theorem generateLevels_witness:
  "generateLevels (Finite 0) (Finite 256) (Finite 32) =
     Some [Finite 0, Finite 32, Finite 64, Finite 96, Finite 128, Finite 160, Finite 192, Finite 224]
   \<and> generateLevels (Finite 5) (Finite 5) (Finite 1) = Some []
   \<and> generateLevels (Finite 0) (Finite 1) (Finite 0) = None"
proof -
  have n: "nat \<lceil>(256 - 0) / (32 :: real)\<rceil> = 8" by simp
  have u: "[0..<8] = [0, 1, 2, 3, 4, 5, 6, 7 :: nat]" by (simp add: upt_conv_Cons)
  have d: "is_double (real k * 32)" if "k \<le> 8" for k
  proof -
    have "\<bar>int k * 32\<bar> \<le> 2 ^ 53" using that by simp
    from is_double_of_int[OF this] show ?thesis by simp
  qed
  have d5: "is_double 5" using is_double_of_int[of 5] by simp
  have d0: "is_double 0" using is_double_of_int[of 0] by simp
  show ?thesis
    using generateLevels_returns_on_exact_sums[where interval = 32 and mn = 0 and mx = 256]
      generateLevels_returns_on_exact_sums[where interval = 1 and mn = 5 and mx = 5]
      generateLevels_returns_on_exact_sums[where a = "Finite 0" and b = "Finite 1" and i = "Finite 0"]
    unfolding n u by (simp add: d d5 d0)
qed

text \<open>
  An interval that is positive and a loop that never returns: \<open>10\<^sup>1\<^sup>6 + 1\<close> rounds to
  \<open>10\<^sup>1\<^sup>6\<close>, so the level stays where it is.
\<close>

theorem generateLevels_absorbed_interval:
  "is_double (10 ^ 16) \<and> is_double (10 ^ 16 + 4) \<and> is_double 1
   \<and> generateLevels (Finite (10 ^ 16)) (Finite (10 ^ 16 + 4)) (Finite 1) = None"
proof -
  have a: "is_double (10 ^ 16)"
    by (rule is_double_dyadic[where m = 152587890625 and k = 16]) simp_all
  have b: "is_double (10 ^ 16 + 4)"
    by (rule is_double_dyadic[where m = 2500000000000001 and k = 2]) simp_all
  have c: "is_double 1" using is_double_of_int[of 1] by simp
  have "generateLevels (Finite (10 ^ 16)) (Finite (10 ^ 16 + 4)) (Finite 1) = None"
  proof (cases "generateLevels (Finite (10 ^ 16)) (Finite (10 ^ 16 + 4)) (Finite 1)")
    case (Some r)
    then show ?thesis
      using generateLevels_loop_absorbed[of "Finite (10 ^ 16)" "Finite (10 ^ 16 + 4)" "Finite 1" "[]" r]
      by (simp add: generateLevels_def)
  qed simp
  with a b c show ?thesis by simp
qed

section \<open>Proofs: ground resolution\<close>

text \<open>
  C8. One zoom level more halves the resolution, for every zoom and every tile size;
  for a tile size other than zero the value is \<open>2\<pi>\<cdot>6378137 / (tileSize\<cdot>2^z)\<close>.
  (With tile size zero both sides are the quotient by zero, the same infinity.)
\<close>

theorem getResolution_halves:
  "getResolution (z + 1) tileSize = map_option (\<lambda>r. r / 2) (getResolution z tileSize)
   \<and> (tileSize \<noteq> 0 \<longrightarrow>
        getResolution z tileSize = Some (2 * pi * 6378137 / (tileSize * 2 powr z)))"
  by (simp add: getResolution_def js_div_def EARTH_RADIUS_def powr_add)

theorem getResolution_witness:
  "getResolution (14 + 1) 256 = map_option (\<lambda>r. r / 2) (getResolution 14 256)
   \<and> getResolution 14 256 = Some (2 * pi * 6378137 / (256 * 2 powr 14))"
  using getResolution_halves[where z = 14 and tileSize = 256] by simp

section \<open>Proofs: elevation codec\<close>





lemma on_grid_iff: "on_grid k x = (\<exists>n. x = of_int n * 2 powi k)"
proof -
  have "on_grid k x = (\<exists>n. x / 2 powi k = of_int n)"
    unfolding on_grid_def by (metis floor_of_int)
  also have "\<dots> = (\<exists>n. x = of_int n * 2 powi k)"
    by (simp add: divide_eq_eq)
  finally show ?thesis .
qed

lemma on_grid_add:
  assumes "on_grid k x" "on_grid k y"
  shows "on_grid k (x + y)"
proof -
  from assms obtain n m where "x = of_int n * 2 powi k" "y = of_int m * 2 powi k"
    unfolding on_grid_iff by blast
  then have "x + y = of_int (n + m) * 2 powi k" by (simp add: algebra_simps)
  then show ?thesis unfolding on_grid_iff ..
qed




lemma fl_on_grid:
  assumes g: "on_grid k x" and b: "\<bar>x\<bar> \<le> 2 ^ 53 * 2 powi k" and k: "- 1074 \<le> k"
  shows "fl x = x"
proof -
  from g obtain n where n: "x = of_int n * 2 powi k" unfolding on_grid_iff ..
  have "\<bar>of_int n :: real\<bar> * 2 powi k \<le> 2 ^ 53 * 2 powi k"
    using b unfolding n by (simp add: abs_mult)
  then have "\<bar>of_int n :: real\<bar> \<le> 2 ^ 53" by simp
  then have "(of_int \<bar>n\<bar> :: real) \<le> of_int (2 ^ 53)" by simp
  then have "\<bar>n\<bar> \<le> 2 ^ 53" by (simp only: of_int_le_iff)
  with n show ?thesis using k by (intro fl_exactI[where m = n and k = k])
qed

lemma fl_grid:
  shows "on_grid (ulp_exponent x) (fl x)"
    and "\<bar>fl x\<bar> \<le> 2 ^ 53 * 2 powi ulp_exponent x"
    and "- 1074 \<le> ulp_exponent x"
proof -
  define u where "u = (2::real) powi ulp_exponent x"
  define q where "q = x / u"
  have u: "0 < u" by (simp add: u_def)
  have flx: "fl x = of_int (round_half_even q) * u"
    by (simp add: fl_def u_def q_def)
  show "on_grid (ulp_exponent x) (fl x)"
    unfolding on_grid_iff flx u_def by (rule exI[of _ "round_half_even q"]) (rule refl)
  show k: "- 1074 \<le> ulp_exponent x" by (simp add: ulp_exponent_def)
  have qb: "\<bar>q\<bar> \<le> 2 ^ 53"
  proof (cases "x = 0")
    case True
    then show ?thesis by (simp add: q_def)
  next
    case False
    have "\<bar>x\<bar> < 2 powi (exponent x + 1)" by (rule exponent_bounds(2)[OF False])
    also have "\<dots> \<le> 2 powi (ulp_exponent x + 53)"
      by (intro power_int_increasing) (simp_all add: ulp_exponent_def)
    also have "\<dots> = 2 ^ 53 * u"
      unfolding u_def using power_int_add[of "2::real" "ulp_exponent x" 53] by simp
    finally have "\<bar>x\<bar> / u \<le> 2 ^ 53" using u by (simp add: field_simps)
    then show ?thesis using u by (simp add: q_def)
  qed
  then have "q \<le> of_int (2 ^ 53)" "of_int (- (2 ^ 53)) \<le> q" by (simp_all add: abs_le_iff)
  then have "\<lceil>q\<rceil> \<le> 2 ^ 53" "- (2 ^ 53) \<le> \<lfloor>q\<rfloor>"
    by (simp_all only: ceiling_le_iff le_floor_iff)
  with round_half_even_bounds(2,3)[of q] have "\<bar>round_half_even q\<bar> \<le> 2 ^ 53" by linarith
  then have "\<bar>of_int (round_half_even q) :: real\<bar> \<le> of_int (2 ^ 53)"
    by (simp only: of_int_abs[symmetric] of_int_le_iff)
  then have "\<bar>of_int (round_half_even q) :: real\<bar> * u \<le> of_int (2 ^ 53) * u"
    using u by (intro mult_right_mono) simp_all
  then show "\<bar>fl x\<bar> \<le> 2 ^ 53 * 2 powi ulp_exponent x"
    unfolding flx using u by (simp add: abs_mult u_def)
qed

lemma fl_idem: "fl (fl x) = fl x"
  by (rule fl_on_grid[OF fl_grid])

















section \<open>Proofs: Chaikin smoothing\<close>

lemma smoothOpenLine_endpoints:
  assumes "2 \<le> length line"
  shows "smoothOpenLine line its fac \<noteq> []"
    and "hd (smoothOpenLine line its fac) = line ! 0"
    and "last (smoothOpenLine line its fac) = line ! (length line - 1)"
proof -
  from assms have ne: "line \<noteq> []" by auto
  then show "smoothOpenLine line its fac \<noteq> []"
    by (simp add: smoothOpenLine_def Let_def)
  show "hd (smoothOpenLine line its fac) = line ! 0"
    using ne by (simp add: smoothOpenLine_def Let_def hd_conv_nth)
  show "last (smoothOpenLine line its fac) = line ! (length line - 1)"
  proof (cases "its \<le> 0 \<or> length line < 2")
    case True
    then show ?thesis using ne by (simp add: smoothOpenLine_def last_conv_nth)
  next
    case False
    then show ?thesis by (simp add: smoothOpenLine_def Let_def)
  qed
qed

text \<open>
  C7. Smoothing an open polyline of at least two points whose end points do not
  coincide within \<open>1e-10\<close> keeps its first and its last point, whatever the
  iteration count and the factor are (the \<^verbatim>\<open>closed\<close> flag absent or false).
\<close>

theorem smoothCoords_preserves_endpoints:
  assumes "2 \<le> length line"
    and "\<not> (\<bar>fst (line ! 0) - fst (line ! (length line - 1))\<bar> < 1 / 10 ^ 10
           \<and> \<bar>snd (line ! 0) - snd (line ! (length line - 1))\<bar> < 1 / 10 ^ 10)"
    and "Option.bind options closed_ring \<noteq> Some True"
  shows "smoothCoords line options \<noteq> []
       \<and> hd (smoothCoords line options) = line ! 0
       \<and> last (smoothCoords line options) = line ! (length line - 1)"
proof -
  have "\<not> isClosedRing line"
    using assms(2) by (simp add: isClosedRing_def Let_def)
  moreover have "(case Option.bind options closed_ring of None \<Rightarrow> False | Some c \<Rightarrow> c) = False"
    using assms(3) by (cases "Option.bind options closed_ring") auto
  ultimately have "smoothCoords line options =
      smoothOpenLine line
        (case Option.bind options iterations of None \<Rightarrow> DEFAULT_ITERATIONS | Some i \<Rightarrow> i)
        (case Option.bind options factor of None \<Rightarrow> DEFAULT_FACTOR | Some f \<Rightarrow> f)"
    using assms(1) by (simp add: smoothCoords_def Let_def)
  then show ?thesis
    using smoothOpenLine_endpoints[OF assms(1)] by simp
qed

theorem smoothCoords_preserves_endpoints_witness:
  "smoothCoords [(0, 0), (1, 1)] (Some \<lparr>iterations = Some 2, factor = Some (1 / 4), closed_ring = None\<rparr>)
     = [(0, 0), (3 / 8, 3 / 8), (5 / 8, 5 / 8), (3 / 4, 3 / 4), (1, 1)]
   \<and> hd (smoothCoords [(0, 0), (1, 1)]
        (Some \<lparr>iterations = Some 2, factor = Some (1 / 4), closed_ring = None\<rparr>)) = (0, 0)
   \<and> last (smoothCoords [(0, 0), (1, 1)]
        (Some \<lparr>iterations = Some 2, factor = Some (1 / 4), closed_ring = None\<rparr>)) = (1, 1)"
proof -
  have s1: "subdivideCoords [(0, 0), (1, 1)] (1 / 4)
      = [(1 / 4, 1 / 4), (3 / 4, 3 / 4), (3 / 4, 3 / 4), (1 / 4, 1 / 4)]"
    by (simp add: subdivideCoords_def Let_def upt_conv_Cons)
  have s2: "subdivideCoords [(1 / 4, 1 / 4), (3 / 4, 3 / 4), (3 / 4, 3 / 4), (1 / 4, 1 / 4)] (1 / 4)
      = [(3 / 8, 3 / 8), (5 / 8, 5 / 8), (3 / 4, 3 / 4), (3 / 4, 3 / 4),
         (5 / 8, 5 / 8), (3 / 8, 3 / 8), (1 / 4, 1 / 4), (1 / 4, 1 / 4)]"
    by (simp add: subdivideCoords_def Let_def upt_conv_Cons)
  have lc: "loop_count 2 = Suc (Suc 0)" "loop_count (8 - computeTrimLength 2) = 3"
    by (simp_all add: loop_count_def computeTrimLength_def)
  have so: "smoothOpenLine [(0, 0), (1, 1)] 2 (1 / 4)
      = [(0, 0), (3 / 8, 3 / 8), (5 / 8, 5 / 8), (3 / 4, 3 / 4), (1, 1)]"
    by (simp add: smoothOpenLine_def Let_def lc s1 s2)
  have v: "smoothCoords [(0, 0), (1, 1)]
      (Some \<lparr>iterations = Some 2, factor = Some (1 / 4), closed_ring = None\<rparr>)
     = [(0, 0), (3 / 8, 3 / 8), (5 / 8, 5 / 8), (3 / 4, 3 / 4), (1, 1)]"
    by (simp add: smoothCoords_def isClosedRing_def so)
  show ?thesis
    using smoothCoords_preserves_endpoints[where line = "[(0, 0), (1, 1)]"
        and options = "Some \<lparr>iterations = Some 2, factor = Some (1 / 4), closed_ring = None\<rparr>"]
    by (simp add: v)
qed

section \<open>Proofs: hillshade\<close>

lemma createGrid_valid:
  assumes "0 < w" "0 < h" "int (length d) = w * h"
  shows "createGrid d w h = Inr \<lparr>data = d, width = w, height = h\<rparr>"
proof -
  have "0 < w * h" using assms(1,2) by simp
  with assms(3) have "d \<noteq> []" by auto
  with assms show ?thesis by (simp add: createGrid_def)
qed

lemma grid_index_in_range:
  fixes w h cx cy :: int
  assumes "0 < w" "0 < h" "0 \<le> cx" "cx < w" "0 \<le> cy" "cy < h"
  shows "0 \<le> cy * w + cx" and "cy * w + cx < w * h"
proof -
  show "0 \<le> cy * w + cx" using assms by simp
  have "cy + 1 \<le> h" using assms by simp
  then have "(cy + 1) * w \<le> h * w" using assms(1) by (intro mult_right_mono) simp_all
  then show "cy * w + cx < w * h" using assms(4) by (simp add: algebra_simps)
qed

lemma gridGet_mem:
  assumes "0 < width grid" "0 < height grid"
    and "int (length (data grid)) = width grid * height grid"
  shows "gridGet grid x y \<in> set (data grid)"
proof -
  define cx where "cx = max 0 (min (width grid - 1) x)"
  define cy where "cy = max 0 (min (height grid - 1) y)"
  have "0 \<le> cx" "cx < width grid" "0 \<le> cy" "cy < height grid"
    using assms(1,2) by (auto simp: cx_def cy_def)
  from grid_index_in_range[OF assms(1,2) this]
  have "nat (cy * width grid + cx) < length (data grid)"
    using assms(3) by linarith
  then show ?thesis
    by (simp add: gridGet_def Let_def cx_def[symmetric] cy_def[symmetric])
qed

lemma set_pixel_rows:
  "set (pixel_rows w h px) = {px x y | x y. 0 \<le> x \<and> x < w \<and> 0 \<le> y \<and> y < h}"
proof -
  have "set (pixel_rows w h px) = (\<Union>y\<in>{0..<nat h}. (\<lambda>x. px (int x) (int y)) ` {0..<nat w})"
    by (simp add: pixel_rows_def)
  also have "\<dots> = {px x y | x y. 0 \<le> x \<and> x < w \<and> 0 \<le> y \<and> y < h}"
  proof (intro set_eqI iffI)
    fix v assume "v \<in> (\<Union>y\<in>{0..<nat h}. (\<lambda>x. px (int x) (int y)) ` {0..<nat w})"
    then obtain x y where "y < nat h" "x < nat w" "v = px (int x) (int y)" by auto
    then show "v \<in> {px x y | x y. 0 \<le> x \<and> x < w \<and> 0 \<le> y \<and> y < h}"
      by (intro CollectI exI[of _ "int x"] exI[of _ "int y"]) auto
  next
    fix v assume "v \<in> {px x y | x y. 0 \<le> x \<and> x < w \<and> 0 \<le> y \<and> y < h}"
    then obtain x y where xy: "0 \<le> x" "x < w" "0 \<le> y" "y < h" "v = px x y" by auto
    then have "nat y \<in> {0..<nat h}" "nat x \<in> {0..<nat w}" "v = px (int (nat x)) (int (nat y))"
      by auto
    then show "v \<in> (\<Union>y\<in>{0..<nat h}. (\<lambda>x. px (int x) (int y)) ` {0..<nat w})"
      by blast
  qed
  finally show ?thesis .
qed

lemma length_pixel_rows: "length (pixel_rows w h px) = nat h * nat w"
  by (simp add: pixel_rows_def length_concat comp_def sum_list_triv)

lemma fast_unfold:
  "computePixelHillshadeFast grid x y gs sunX sunY sunZ flat =
     (if (sobel_dx grid x y * gs) * (sobel_dx grid x y * gs)
           + (sobel_dy grid x y * gs) * (sobel_dy grid x y * gs) < FLAT_THRESHOLD_SQ
      then flat
      else clamp255 (255 * ((- sunX * (sobel_dx grid x y * gs) - sunY * (sobel_dy grid x y * gs) + sunZ)
             / sqrt ((sobel_dx grid x y * gs) * (sobel_dx grid x y * gs)
                     + (sobel_dy grid x y * gs) * (sobel_dy grid x y * gs) + 1))))"
  unfolding computePixelHillshadeFast_def Let_def sobel_dx_def sobel_dy_def clamp255_def
  by (rule refl)

lemma clamp255_range: "0 \<le> clamp255 v \<and> clamp255 v \<le> 255"
  by (simp add: clamp255_def)

lemma fast_range:
  assumes "0 \<le> flat" "flat \<le> 255"
  shows "0 \<le> computePixelHillshadeFast grid x y gs sunX sunY sunZ flat
       \<and> computePixelHillshadeFast grid x y gs sunX sunY sunZ flat \<le> 255"
  unfolding fast_unfold using assms clamp255_range by (simp only: split: if_split) blast

lemma sobel_flat:
  assumes "\<And>u v. gridGet grid u v = c"
  shows "sobel_dx grid x y = 0" and "sobel_dy grid x y = 0"
  by (simp_all add: sobel_dx_def sobel_dy_def assms)

lemma fast_flat:
  assumes "sobel_dx grid x y = 0" "sobel_dy grid x y = 0"
  shows "computePixelHillshadeFast grid x y gs sunX sunY sunZ flat = flat"
  unfolding fast_unfold assms by (simp add: FLAT_THRESHOLD_SQ_def)

lemma cos_zenith_range:
  assumes "0 \<le> alt" "alt \<le> 90"
  shows "0 \<le> cos ((90 - alt) * pi / 180)" and "cos ((90 - alt) * pi / 180) \<le> 1"
proof -
  have "0 \<le> (90 - alt) * pi / 180" using assms by simp
  moreover have "(90 - alt) * pi / 180 \<le> pi / 2"
  proof -
    have "(90 - alt) * pi \<le> 90 * pi" using assms by (intro mult_right_mono) simp_all
    then show ?thesis by simp
  qed
  moreover have "- (pi / 2) \<le> (90 - alt) * pi / 180" using calculation(1) pi_ge_zero by linarith
  ultimately show "0 \<le> cos ((90 - alt) * pi / 180)" by (intro cos_ge_zero)
  show "cos ((90 - alt) * pi / 180) \<le> 1" by simp
qed

lemma hillshade_returns:
  assumes "0 < w" "0 < h" "int (length d) = w * h" "cellSize \<noteq> 0"
    and "0 \<le> sun_altitude options" "sun_altitude options \<le> 90"
    and "0 \<le> sun_azimuth options" "sun_azimuth options \<le> 360"
  shows "hillshade d w h cellSize options =
     Inr \<lparr>data = pixel_rows w h (\<lambda>x y.
              computePixelHillshadeFast \<lparr>data = d, width = w, height = h\<rparr> x y (1 / (8 * cellSize))
                (sin ((90 - sun_altitude options) * pi / 180) * cos ((360 - sun_azimuth options + 90) * pi / 180))
                (sin ((90 - sun_altitude options) * pi / 180) * sin ((360 - sun_azimuth options + 90) * pi / 180))
                (cos ((90 - sun_altitude options) * pi / 180))
                (255 * cos ((90 - sun_altitude options) * pi / 180))),
          width = w, height = h\<rparr>"
proof -
  have v: "validateSunPosition (sun_altitude options) (sun_azimuth options) = None"
    using assms(5-8) by (simp add: validateSunPosition_def)
  have j: "js_div 1 (8 * cellSize) = Some (1 / (8 * cellSize))"
    using assms(4) by (simp add: js_div_def)
  show ?thesis
    unfolding hillshade_def createGrid_valid[OF assms(1-3)] v j Let_def
    by (simp only: sum.case option.case times_divide_eq_left)
qed


lemma hillshade_pixels:
  assumes "0 < w" "0 < h" "int (length d) = w * h" "cellSize \<noteq> 0"
    and "0 \<le> sun_altitude options" "sun_altitude options \<le> 90"
    and "0 \<le> sun_azimuth options" "sun_azimuth options \<le> 360"
  obtains px where
    "hillshade d w h cellSize options = Inr \<lparr>data = pixel_rows w h px, width = w, height = h\<rparr>"
    and "\<And>x y. 0 \<le> px x y \<and> px x y \<le> 255"
    and "\<And>x y. sobel_dx \<lparr>data = d, width = w, height = h\<rparr> x y = 0 \<Longrightarrow>
               sobel_dy \<lparr>data = d, width = w, height = h\<rparr> x y = 0 \<Longrightarrow>
               px x y = 255 * cos ((90 - sun_altitude options) * pi / 180)"
proof -
  let ?flat = "255 * cos ((90 - sun_altitude options) * pi / 180)"
  have fr: "0 \<le> ?flat" "?flat \<le> 255"
    using cos_zenith_range[OF assms(5,6)] by simp_all
  show thesis
    by (rule that[OF hillshade_returns[OF assms]]) (simp_all add: fast_range[OF fr] fast_flat)
qed

lemma gridGet_const:
  assumes "0 < w" "0 < h" "int (length d) = w * h" "\<forall>u\<in>set d. u = c"
  shows "gridGet \<lparr>data = d, width = w, height = h\<rparr> x y = c"
  using gridGet_mem[of "\<lparr>data = d, width = w, height = h\<rparr>" x y] assms by simp

text \<open>
  C2 (as amended). On a valid grid, with a cell size other than zero and the sun inside
  its ranges, \<open>hillshade\<close> returns a grid of the same size whose values all lie in
  \<open>[0, 255]\<close>; on a grid of equal values every value is \<open>255 \<cdot> cos zenith\<close>, not
  rounded.
\<close>

theorem hillshade_range_and_flat_value:
  assumes "0 < w" "0 < h" "int (length d) = w * h" "cellSize \<noteq> 0"
    and "0 \<le> sun_altitude options" "sun_altitude options \<le> 90"
    and "0 \<le> sun_azimuth options" "sun_azimuth options \<le> 360"
  shows "\<exists>g. hillshade d w h cellSize options = Inr g
      \<and> width g = w \<and> height g = h \<and> length (data g) = length d
      \<and> (\<forall>v\<in>set (data g). 0 \<le> v \<and> v \<le> 255)
      \<and> ((\<forall>u\<in>set d. u = c) \<longrightarrow>
            (\<forall>v\<in>set (data g). v = 255 * cos ((90 - sun_altitude options) * pi / 180)))"
proof -
  from hillshade_pixels[OF assms] obtain px where
    run: "hillshade d w h cellSize options = Inr \<lparr>data = pixel_rows w h px, width = w, height = h\<rparr>"
    and range: "\<And>x y. 0 \<le> px x y \<and> px x y \<le> 255"
    and flat: "\<And>x y. sobel_dx \<lparr>data = d, width = w, height = h\<rparr> x y = 0 \<Longrightarrow>
               sobel_dy \<lparr>data = d, width = w, height = h\<rparr> x y = 0 \<Longrightarrow>
               px x y = 255 * cos ((90 - sun_altitude options) * pi / 180)"
    by blast
  have len: "length (pixel_rows w h px) = length d"
  proof -
    have "nat h * nat w = nat (h * w)" using assms(1,2) by (simp add: nat_mult_distrib)
    also have "\<dots> = nat (int (length d))" using assms(3) by (simp add: mult.commute)
    finally show ?thesis by (simp add: length_pixel_rows)
  qed
  have rng: "\<forall>v\<in>set (pixel_rows w h px). 0 \<le> v \<and> v \<le> 255"
    using range by (auto simp: set_pixel_rows)
  have flt: "\<forall>v\<in>set (pixel_rows w h px). v = 255 * cos ((90 - sun_altitude options) * pi / 180)"
    if eq: "\<forall>u\<in>set d. u = c"
  proof -
    have "gridGet \<lparr>data = d, width = w, height = h\<rparr> x y = c" for x y
      by (rule gridGet_const[OF assms(1-3) eq])
    then have "px x y = 255 * cos ((90 - sun_altitude options) * pi / 180)" for x y
      by (intro flat sobel_flat)
    then show ?thesis by (auto simp: set_pixel_rows)
  qed
  show ?thesis
    by (rule exI[of _ "\<lparr>data = pixel_rows w h px, width = w, height = h\<rparr>"])
       (use run len rng flt in simp)
qed

lemma half_sqrt2_times_255_not_int: "255 * (sqrt 2 / 2) \<noteq> real_of_int k"
proof
  assume "255 * (sqrt 2 / 2) = real_of_int k"
  then have s: "sqrt 2 = 2 * real_of_int k / 255" by simp
  have "(sqrt 2)\<^sup>2 = 2" by simp
  then have "(2 * real_of_int k / 255)\<^sup>2 = 2" unfolding s .
  then have "2 * 65025 = 4 * (real_of_int k)\<^sup>2" by (simp add: power2_eq_square field_simps)
  then have "real_of_int 65025 = real_of_int (2 * k\<^sup>2)" by simp
  then have "(65025 :: int) = 2 * k\<^sup>2" by (simp only: of_int_eq_iff)
  then have "even (65025 :: int)" by (metis dvd_triv_left)
  then show False by simp
qed

text \<open>
  Scenario S2 of the specification: on the flat \<open>10 \<times> 10\<close> grid with the sun at
  altitude 45 the pixels are \<open>255 \<cdot> cos (\<pi>/4)\<close>, which is no integer, so they are
  not the rounded value.
\<close>

theorem hillshade_flat_is_not_rounded:
  "\<exists>g. hillshade (replicate 100 0) 10 10 1 (Some \<lparr>altitude = Some 45, azimuth = Some 315\<rparr>) = Inr g
     \<and> data g \<noteq> []
     \<and> \<not> (\<forall>v\<in>set (data g). v = real_of_int (js_round (255 * cos ((90 - 45) * pi / 180))))"
proof -
  define opts where "opts = Some \<lparr>altitude = Some 45, azimuth = Some 315\<rparr>"
  define flat0 where "flat0 = \<lparr>data = replicate 100 (0::real), width = 10, height = 10\<rparr>"
  have alt: "sun_altitude opts = 45" and az: "sun_azimuth opts = 315"
    by (simp_all add: sun_altitude_def sun_azimuth_def opts_def)
  have p: "(0::int) < 10" "(0::int) < 10" "int (length (replicate 100 (0::real))) = 10 * 10"
    "(1::real) \<noteq> 0" "0 \<le> sun_altitude opts" "sun_altitude opts \<le> 90"
    "0 \<le> sun_azimuth opts" "sun_azimuth opts \<le> 360"
    by (simp_all add: alt az)
  have g0: "gridGet flat0 x y = 0" for x y
    unfolding flat0_def by (rule gridGet_const) simp_all
  have "\<exists>g. hillshade (replicate 100 0) 10 10 1 opts = Inr g \<and> data g \<noteq> []
          \<and> (\<forall>k. \<not> (\<forall>v\<in>set (data g). v = real_of_int k))"
  proof (rule hillshade_pixels[OF p])
    fix px :: "int \<Rightarrow> int \<Rightarrow> real"
    assume run: "hillshade (replicate 100 0) 10 10 1 opts
          = Inr \<lparr>data = pixel_rows 10 10 px, width = 10, height = 10\<rparr>"
      and flat: "\<And>x y. sobel_dx \<lparr>data = replicate 100 0, width = 10, height = 10\<rparr> x y = 0 \<Longrightarrow>
               sobel_dy \<lparr>data = replicate 100 0, width = 10, height = 10\<rparr> x y = 0 \<Longrightarrow>
               px x y = 255 * cos ((90 - sun_altitude opts) * pi / 180)"
    have "px 0 0 = 255 * cos ((90 - sun_altitude opts) * pi / 180)"
      by (rule flat) (rule sobel_flat[of flat0, OF g0, unfolded flat0_def])+
    then have v: "px 0 0 = 255 * (sqrt 2 / 2)"
      by (simp add: alt cos_45)
    have mem: "px 0 0 \<in> set (pixel_rows 10 10 px)"
      unfolding set_pixel_rows by (intro CollectI exI[of _ 0]) simp
    then have ne: "pixel_rows 10 10 px \<noteq> []" by auto
    have "\<not> (\<forall>v\<in>set (pixel_rows 10 10 px). v = real_of_int k)" for k
    proof
      assume "\<forall>v\<in>set (pixel_rows 10 10 px). v = real_of_int k"
      with mem have "px 0 0 = real_of_int k" by (rule bspec[rotated])
      with v show False using half_sqrt2_times_255_not_int[of k] by (simp only:)
    qed
    then show ?thesis
      by (intro exI[of _ "\<lparr>data = pixel_rows 10 10 px, width = 10, height = 10\<rparr>"])
        (simp add: run ne)
  qed
  then show ?thesis unfolding opts_def by blast
qed

theorem hillshade_range_and_flat_value_witness:
  "\<exists>g. hillshade (replicate 100 0) 10 10 1 (Some \<lparr>altitude = Some 45, azimuth = Some 315\<rparr>) = Inr g
      \<and> width g = 10 \<and> height g = 10 \<and> length (data g) = 100
      \<and> (\<forall>v\<in>set (data g). 0 \<le> v \<and> v \<le> 255)
      \<and> (\<forall>v\<in>set (data g). v = 255 * cos ((90 - 45) * pi / 180))"
  using hillshade_range_and_flat_value[where d = "replicate 100 0" and w = 10 and h = 10
      and cellSize = 1 and options = "Some \<lparr>altitude = Some 45, azimuth = Some 315\<rparr>" and c = 0]
  by (simp add: sun_altitude_def sun_azimuth_def)

section \<open>Proofs: the two hillshade versions\<close>

lemma sqrt_sum_squares_factor:
  assumes "x \<noteq> 0"
  shows "sqrt (x\<^sup>2 + y\<^sup>2) = \<bar>x\<bar> * sqrt (1 + (y / x)\<^sup>2)"
proof -
  have "x\<^sup>2 + y\<^sup>2 = x\<^sup>2 * (1 + (y / x)\<^sup>2)"
    using assms by (simp add: power_divide field_simps)
  then show ?thesis by (simp add: real_sqrt_mult)
qed

lemma sqrt_one_plus_pos: "0 < sqrt (1 + (t::real)\<^sup>2)"
  by (simp add: add_pos_nonneg)

lemma js_atan2_polar:
  "sqrt (x\<^sup>2 + y\<^sup>2) * cos (js_atan2 y x) = x"
  "sqrt (x\<^sup>2 + y\<^sup>2) * sin (js_atan2 y x) = y"
proof -
  define t where "t = y / x"
  define s where "s = sqrt (1 + t\<^sup>2)"
  have s: "0 < s" unfolding s_def by (rule sqrt_one_plus_pos)
  have c: "cos (arctan t) = 1 / s" and sn: "sin (arctan t) = t / s"
    unfolding s_def by (rule cos_arctan, rule sin_arctan)
  consider (pos) "0 < x" | (neg) "x < 0" | (zero) "x = 0" by linarith
  then have "sqrt (x\<^sup>2 + y\<^sup>2) * cos (js_atan2 y x) = x \<and> sqrt (x\<^sup>2 + y\<^sup>2) * sin (js_atan2 y x) = y"
  proof cases
    case pos
    then have f: "sqrt (x\<^sup>2 + y\<^sup>2) = x * s"
      using sqrt_sum_squares_factor[of x y] by (simp add: s_def t_def)
    have a: "js_atan2 y x = arctan t" using pos by (simp add: js_atan2_def t_def)
    have "x * t = y" using pos by (simp add: t_def)
    then show ?thesis unfolding a f c sn using s by simp
  next
    case neg
    then have f: "sqrt (x\<^sup>2 + y\<^sup>2) = - x * s"
      using sqrt_sum_squares_factor[of x y] by (simp add: s_def t_def)
    have a: "js_atan2 y x = arctan t + pi \<or> js_atan2 y x = arctan t - pi"
      using neg by (simp add: js_atan2_def t_def)
    have cs: "cos (js_atan2 y x) = - (1 / s)" "sin (js_atan2 y x) = - (t / s)"
      using a c sn by auto
    have "x * t = y" using neg by (simp add: t_def)
    then show ?thesis unfolding f cs using s by simp
  next
    case zero
    then show ?thesis by (simp add: js_atan2_def)
  qed
  then show "sqrt (x\<^sup>2 + y\<^sup>2) * cos (js_atan2 y x) = x"
    "sqrt (x\<^sup>2 + y\<^sup>2) * sin (js_atan2 y x) = y" by simp_all
qed

lemma lambert_as_dot_product:
  fixes gx gy az cosZ sinZ :: real
  defines "m \<equiv> sqrt (gx * gx + gy * gy)"
  defines "asp0 \<equiv> js_atan2 gy (- gx)"
  defines "asp \<equiv> (if asp0 < 0 then asp0 + 2 * pi else asp0)"
  shows "cosZ * cos (arctan m) + sinZ * sin (arctan m) * cos (az - asp)
       = (- (sinZ * cos az) * gx + (sinZ * sin az) * gy + cosZ) / sqrt (gx * gx + gy * gy + 1)"
proof -
  define n where "n = sqrt (1 + m\<^sup>2)"
  have n: "0 < n" unfolding n_def by (rule sqrt_one_plus_pos)
  have m2: "m\<^sup>2 = gx * gx + gy * gy"
    unfolding m_def by (simp add: power2_eq_square[symmetric])
  have n_eq: "sqrt (gx * gx + gy * gy + 1) = n"
    unfolding n_def m2 by (simp add: add.commute)
  have c: "cos (arctan m) = 1 / n" and s: "sin (arctan m) = m / n"
    unfolding n_def by (rule cos_arctan, rule sin_arctan)
  have m': "m = sqrt ((- gx)\<^sup>2 + gy\<^sup>2)"
    unfolding m_def by (simp add: power2_eq_square)
  have pc: "m * cos asp0 = - gx" and ps: "m * sin asp0 = gy"
    unfolding m' asp0_def by (rule js_atan2_polar)+
  have "cos asp = cos asp0" "sin asp = sin asp0"
    unfolding asp_def by simp_all
  then have "m * cos (az - asp) = cos az * (m * cos asp0) + sin az * (m * sin asp0)"
    by (simp add: cos_diff algebra_simps)
  then have e: "m * cos (az - asp) = - (cos az * gx) + sin az * gy"
    unfolding pc ps by simp
  have "sinZ * (m / n) * cos (az - asp) = sinZ * (m * cos (az - asp)) / n"
    by simp
  then have k: "sinZ * (m / n) * cos (az - asp) = sinZ * (- (cos az * gx) + sin az * gy) / n"
    unfolding e .
  have "cosZ * cos (arctan m) + sinZ * sin (arctan m) * cos (az - asp)
      = cosZ * (1 / n) + sinZ * (m / n) * cos (az - asp)"
    unfolding c s ..
  also have "\<dots> = cosZ * (1 / n) + sinZ * (- (cos az * gx) + sin az * gy) / n"
    unfolding k ..
  also have "\<dots> = (- (sinZ * cos az) * gx + (sinZ * sin az) * gy + cosZ) / n"
    by (simp add: add_divide_distrib diff_divide_distrib algebra_simps)
  finally show ?thesis unfolding n_eq .
qed


lemma max_min_clamp255: "max 0 (min 255 v) = clamp255 v"
  by (simp add: clamp255_def)

lemma naive_formula:
  fixes grid :: Grid and x y :: int and cellSize :: real
  assumes "cellSize \<noteq> 0"
  defines "gx \<equiv> sobel_dx grid x y / (8 * cellSize)"
  defines "gy \<equiv> sobel_dy grid x y / (8 * cellSize)"
  shows "computePixelHillshade grid x y cellSize az cosZ sinZ =
     Some (clamp255 (255 * ((- (sinZ * cos az) * gx + (sinZ * sin az) * gy + cosZ)
                              / sqrt (gx * gx + gy * gy + 1))))"
proof -
  have j: "js_div A (8 * cellSize) = Some (A / (8 * cellSize))" for A
    using assms(1) by (simp add: js_div_def)
  have "computePixelHillshade grid x y cellSize az cosZ sinZ =
     Some (max 0 (min 255 (255 * (cosZ * cos (arctan (sqrt (gx * gx + gy * gy)))
        + sinZ * sin (arctan (sqrt (gx * gx + gy * gy)))
          * cos (az - (if js_atan2 gy (- gx) < 0 then js_atan2 gy (- gx) + 2 * pi
                       else js_atan2 gy (- gx)))))))"
    unfolding computePixelHillshade_def Let_def j gx_def gy_def sobel_dx_def sobel_dy_def
    by (simp only: prod.case option.case)
  then show ?thesis
    unfolding lambert_as_dot_product max_min_clamp255 .
qed

lemma fast_formula:
  defines "F \<equiv> \<lambda>grid x y cellSize sunX sunY sunZ flat.
     computePixelHillshadeFast grid x y (1 / (8 * cellSize)) sunX sunY sunZ flat"
  shows "F grid x y cellSize sunX sunY sunZ flat =
     (if (sobel_dx grid x y / (8 * cellSize)) * (sobel_dx grid x y / (8 * cellSize))
           + (sobel_dy grid x y / (8 * cellSize)) * (sobel_dy grid x y / (8 * cellSize))
         < FLAT_THRESHOLD_SQ
      then flat
      else clamp255 (255 * ((- sunX * (sobel_dx grid x y / (8 * cellSize))
                             - sunY * (sobel_dy grid x y / (8 * cellSize)) + sunZ)
             / sqrt ((sobel_dx grid x y / (8 * cellSize)) * (sobel_dx grid x y / (8 * cellSize))
                     + (sobel_dy grid x y / (8 * cellSize)) * (sobel_dy grid x y / (8 * cellSize)) + 1))))"
  unfolding F_def fast_unfold by (simp only: times_divide_eq_right mult_1_right)

lemma those_map_Some: "those (map Some xs) = Some xs"
  by (induction xs) simp_all

lemma pixel_rows_Some: "pixel_rows w h (\<lambda>x y. Some (f x y)) = map Some (pixel_rows w h f)"
  by (simp add: pixel_rows_def map_concat comp_def)

lemma hillshade_slope_aspect_returns:
  assumes "0 < w" "0 < h" "int (length d) = w * h" "cellSize \<noteq> 0"
    and "0 \<le> sun_altitude options" "sun_altitude options \<le> 90"
    and "0 \<le> sun_azimuth options" "sun_azimuth options \<le> 360"
  shows "hillshade_slope_aspect d w h cellSize options =
     Inr \<lparr>data = pixel_rows w h (\<lambda>x y. clamp255 (255 *
              ((- (sin ((90 - sun_altitude options) * pi / 180) * cos ((360 - sun_azimuth options + 90) * pi / 180))
                   * (sobel_dx \<lparr>data = d, width = w, height = h\<rparr> x y / (8 * cellSize))
                + (sin ((90 - sun_altitude options) * pi / 180) * sin ((360 - sun_azimuth options + 90) * pi / 180))
                   * (sobel_dy \<lparr>data = d, width = w, height = h\<rparr> x y / (8 * cellSize))
                + cos ((90 - sun_altitude options) * pi / 180))
               / sqrt ((sobel_dx \<lparr>data = d, width = w, height = h\<rparr> x y / (8 * cellSize))
                         * (sobel_dx \<lparr>data = d, width = w, height = h\<rparr> x y / (8 * cellSize))
                       + (sobel_dy \<lparr>data = d, width = w, height = h\<rparr> x y / (8 * cellSize))
                         * (sobel_dy \<lparr>data = d, width = w, height = h\<rparr> x y / (8 * cellSize)) + 1)))),
          width = w, height = h\<rparr>"
proof -
  have v: "validateSunPosition (sun_altitude options) (sun_azimuth options) = None"
    using assms(5-8) by (simp add: validateSunPosition_def)
  show ?thesis
    unfolding hillshade_slope_aspect_def createGrid_valid[OF assms(1-3)] v Let_def
      naive_formula[OF assms(4)] pixel_rows_Some those_map_Some
    by (simp only: sum.case option.case)
qed


lemma nth_concat_uniform:
  assumes "\<forall>r\<in>set rows. length r = n" "j < n" "i < length rows"
  shows "concat rows ! (i * n + j) = rows ! i ! j"
  using assms
proof (induction rows arbitrary: i)
  case Nil
  then show ?case by simp
next
  case (Cons r rs)
  show ?case
  proof (cases i)
    case 0
    then show ?thesis using Cons.prems by (simp add: nth_append)
  next
    case (Suc k)
    have "concat (r # rs) ! (i * n + j) = concat rs ! (k * n + j)"
      using Cons.prems(1) by (simp add: Suc nth_append)
    also have "\<dots> = rs ! k ! j"
      using Cons.prems Suc by (intro Cons.IH) simp_all
    finally show ?thesis by (simp add: Suc)
  qed
qed

lemma nth_pixel_rows:
  assumes "0 \<le> x" "x < w" "0 \<le> y" "y < h"
  shows "pixel_rows w h px ! nat (y * w + x) = px x y"
proof -
  let ?rows = "map (\<lambda>y. map (\<lambda>x. px (int x) (int y)) [0..<nat w]) [0..<nat h]"
  have i: "nat (y * w + x) = nat y * nat w + nat x"
    using assms by (simp add: nat_add_distrib nat_mult_distrib)
  have "concat ?rows ! (nat y * nat w + nat x) = ?rows ! nat y ! nat x"
    using assms by (intro nth_concat_uniform) auto
  also have "\<dots> = px x y" using assms by simp
  finally show ?thesis unfolding pixel_rows_def i .
qed

lemma sqrt_25_16: "sqrt (25 / 16) = 5 / 4"
  by (rule real_sqrt_unique) (simp_all add: power2_eq_square)

text \<open>
  C9 (the two versions at one input).  The claim is that the dot-product version and
  the slope and aspect version give the same value at every pixel.  On the grid
  \<open>[0, 1.5]\<close> of width 1 and height 2, with cell size 1, altitude 0 and azimuth 360
  (a slope that rises to the south, lit from the north at the horizon) the first pixel
  is \<open>0\<close> in the dot-product version and \<open>153\<close> in the slope and aspect version.
  By \<open>lambert_as_dot_product\<close> the slope and aspect version has the north-south term
  \<open>+ sunY \<cdot> dzdy\<close>, where \<open>computePixelHillshadeFast\<close> subtracts it.  The
  trigonometric functions are the exact ones here; the rounding of the program moves
  the two values in their last digits only.
\<close>

theorem hillshade_versions_differ:
  "\<exists>g1 g2. hillshade [0, 3 / 2] 1 2 1 (Some \<lparr>altitude = Some 0, azimuth = Some 360\<rparr>) = Inr g1
      \<and> hillshade_slope_aspect [0, 3 / 2] 1 2 1 (Some \<lparr>altitude = Some 0, azimuth = Some 360\<rparr>) = Inr g2
      \<and> data g1 ! 0 = 0 \<and> data g2 ! 0 = 153"
proof -
  define opts where "opts = Some \<lparr>altitude = Some 0, azimuth = Some 360\<rparr>"
  define G where "G = \<lparr>data = [0, 3 / 2 :: real], width = 1, height = 2\<rparr>"
  have alt: "sun_altitude opts = 0" and az: "sun_azimuth opts = 360"
    by (simp_all add: sun_altitude_def sun_azimuth_def opts_def)
  have p: "(0::int) < 1" "(0::int) < 2" "int (length [0, 3 / 2 :: real]) = 1 * 2"
    "(1::real) \<noteq> 0" "0 \<le> sun_altitude opts" "sun_altitude opts \<le> 90"
    "0 \<le> sun_azimuth opts" "sun_azimuth opts \<le> 360"
    by (simp_all add: alt az)
  have gg: "gridGet G u v = (if v \<le> 0 then 0 else 3 / 2)" for u v
  proof -
    have "max 0 (min 1 v) = (if v \<le> 0 then 0 else 1)" by auto
    then show ?thesis by (simp add: gridGet_def G_def Let_def)
  qed
  have sx: "sobel_dx G 0 0 = 0" and sy: "sobel_dy G 0 0 = 6"
    by (simp_all add: sobel_dx_def sobel_dy_def gg)
  have ang: "(90 - sun_altitude opts) * pi / 180 = pi / 2"
    "(360 - sun_azimuth opts + 90) * pi / 180 = pi / 2"
    by (simp_all add: alt az)
  have v1: "computePixelHillshadeFast G 0 0 (1 / (8 * 1)) (sin (pi / 2) * cos (pi / 2))
      (sin (pi / 2) * sin (pi / 2)) (cos (pi / 2)) (255 * cos (pi / 2)) = 0"
    unfolding fast_formula sx sy
    by (simp add: FLAT_THRESHOLD_SQ_def clamp255_def sqrt_25_16)
  have v2: "clamp255 (255 * ((- (sin (pi / 2) * cos (pi / 2)) * (sobel_dx G 0 0 / (8 * 1))
        + (sin (pi / 2) * sin (pi / 2)) * (sobel_dy G 0 0 / (8 * 1)) + cos (pi / 2))
       / sqrt ((sobel_dx G 0 0 / (8 * 1)) * (sobel_dx G 0 0 / (8 * 1))
               + (sobel_dy G 0 0 / (8 * 1)) * (sobel_dy G 0 0 / (8 * 1)) + 1))) = 153"
    unfolding sx sy by (simp add: clamp255_def sqrt_25_16)
  define F1 where "F1 = (\<lambda>x y. computePixelHillshadeFast G x y (1 / (8 * 1))
      (sin (pi / 2) * cos (pi / 2)) (sin (pi / 2) * sin (pi / 2)) (cos (pi / 2)) (255 * cos (pi / 2)))"
  define F2 where "F2 = (\<lambda>x y. clamp255 (255 * ((- (sin (pi / 2) * cos (pi / 2)) * (sobel_dx G x y / (8 * 1))
        + (sin (pi / 2) * sin (pi / 2)) * (sobel_dy G x y / (8 * 1)) + cos (pi / 2))
       / sqrt ((sobel_dx G x y / (8 * 1)) * (sobel_dx G x y / (8 * 1))
               + (sobel_dy G x y / (8 * 1)) * (sobel_dy G x y / (8 * 1)) + 1))))"
  define g1 where "g1 = \<lparr>data = pixel_rows 1 2 F1, width = 1, height = 2\<rparr>"
  define g2 where "g2 = \<lparr>data = pixel_rows 1 2 F2, width = 1, height = 2\<rparr>"
  have r1: "hillshade [0, 3 / 2] 1 2 1 opts = Inr g1"
    unfolding g1_def F1_def by (rule hillshade_returns[OF p, unfolded ang, folded G_def])
  have r2: "hillshade_slope_aspect [0, 3 / 2] 1 2 1 opts = Inr g2"
    unfolding g2_def F2_def by (rule hillshade_slope_aspect_returns[OF p, unfolded ang, folded G_def])
  have n1: "pixel_rows 1 2 f ! 0 = f 0 0" for f :: "int \<Rightarrow> int \<Rightarrow> real"
    using nth_pixel_rows[of 0 1 0 2 f] by simp
  have d1: "data g1 ! 0 = 0" unfolding g1_def by (simp add: n1) (simp only: F1_def v1)
  have d2: "data g2 ! 0 = 153" unfolding g2_def by (simp add: n1) (simp only: F2_def v2)
  show ?thesis
    unfolding opts_def[symmetric]
    by (intro exI[of _ g1] exI[of _ g2] conjI r1 r2 d1 d2)
qed

section \<open>Proofs: transform and clip\<close>

lemma intersection_divisor_not_zero:
  assumes "isInsideEdge current edge edgeValue \<noteq> isInsideEdge previous edge edgeValue"
  shows "(edge = Left \<or> edge = Right \<longrightarrow> fst current - fst previous \<noteq> 0)
       \<and> (edge = Top \<or> edge = Bottom \<longrightarrow> snd current - snd previous \<noteq> 0)"
  using assms by (cases edge) auto

lemma createTransform_defined:
  assumes "config_tileSizePx config \<noteq> 0"
  shows "createTransform config = Inr (transform_point config)"
  using assms by (simp add: createTransform_def js_div_def transform_point_def fun_eq_iff)

lemma clip_ring_step_eq:
  "clip_ring_step transform extent ring acc =
     acc @ (let c = clipPolygonRingToBox (map transform ring) 0 0 extent extent
            in if 4 \<le> length c then [reclosed c] else [])"
proof -
  define c where "c = clipPolygonRingToBox (map transform ring) 0 0 extent extent"
  show ?thesis
  proof (cases "4 \<le> length c")
    case True
    then have ne: "c \<noteq> []" by auto
    have "(fst (c ! 0) \<noteq> fst (c ! (length c - 1)) \<or> snd (c ! 0) \<noteq> snd (c ! (length c - 1)))
          = (hd c \<noteq> last c)"
      using ne by (simp add: hd_conv_nth last_conv_nth prod_eq_iff)
    then show ?thesis
      using True ne
      by (simp add: clip_ring_step_def Let_def c_def[symmetric] reclosed_def hd_conv_nth)
  next
    case False
    then show ?thesis
      by (simp add: clip_ring_step_def Let_def c_def[symmetric])
  qed
qed

lemma fold_clip_ring_step:
  "fold (clip_ring_step transform extent) rings acc =
     acc @ map reclosed (filter (\<lambda>r. 4 \<le> length r)
             (map (\<lambda>ring. clipPolygonRingToBox (map transform ring) 0 0 extent extent) rings))"
proof (induction rings arbitrary: acc)
  case Nil
  then show ?case by simp
next
  case (Cons r rs)
  have "fold (clip_ring_step transform extent) (r # rs) acc
      = fold (clip_ring_step transform extent) rs (clip_ring_step transform extent r acc)"
    by simp
  also have "\<dots> = clip_ring_step transform extent r acc @ map reclosed (filter (\<lambda>r. 4 \<le> length r)
             (map (\<lambda>ring. clipPolygonRingToBox (map transform ring) 0 0 extent extent) rs))"
    by (rule Cons.IH)
  also have "\<dots> = acc @ map reclosed (filter (\<lambda>r. 4 \<le> length r)
             (map (\<lambda>ring. clipPolygonRingToBox (map transform ring) 0 0 extent extent) (r # rs)))"
    unfolding clip_ring_step_eq by (simp add: Let_def)
  finally show ?case .
qed

lemma clip_feature_step_eq:
  "clip_feature_step (transform_point config) (config_mvtExtent config) feature acc =
     acc @ clipped_feature config feature"
proof -
  have c: "clipped_ring config = (\<lambda>ring. clipPolygonRingToBox (map (transform_point config) ring)
       0 0 (config_mvtExtent config) (config_mvtExtent config))"
    by (simp add: fun_eq_iff clipped_ring_def)
  show ?thesis
    by (simp add: clip_feature_step_def Let_def fold_clip_ring_step clipped_feature_def
        surviving_rings_def c polygon_def)
qed

lemma fold_clip_feature_step:
  "fold (clip_feature_step (transform_point config) (config_mvtExtent config)) features acc =
     acc @ concat (map (clipped_feature config) features)"
proof (induction features arbitrary: acc)
  case Nil
  then show ?case by simp
next
  case (Cons f fs)
  have "fold (clip_feature_step (transform_point config) (config_mvtExtent config)) (f # fs) acc
      = fold (clip_feature_step (transform_point config) (config_mvtExtent config)) fs
          (clip_feature_step (transform_point config) (config_mvtExtent config) f acc)"
    by simp
  also have "\<dots> = clip_feature_step (transform_point config) (config_mvtExtent config) f acc
        @ concat (map (clipped_feature config) fs)"
    by (rule Cons.IH)
  also have "\<dots> = acc @ concat (map (clipped_feature config) (f # fs))"
    unfolding clip_feature_step_eq by simp
  finally show ?case .
qed

lemma reclosed_closed:
  assumes "ring \<noteq> []"
  shows "hd (reclosed ring) = last (reclosed ring)" and "length ring \<le> length (reclosed ring)"
  using assms by (simp_all add: reclosed_def)

lemma surviving_rings_closed:
  assumes "ring \<in> set (surviving_rings config rings)"
  shows "4 \<le> length ring \<and> hd ring = last ring"
proof -
  from assms obtain c where c: "4 \<le> length c" "ring = reclosed c"
    by (auto simp: surviving_rings_def)
  then have "c \<noteq> []" by auto
  from reclosed_closed[OF this] c show ?thesis by simp
qed


lemma transformAndClipPolygonFeatures_eq:
  assumes "config_tileSizePx config \<noteq> 0"
  shows "transformAndClipPolygonFeatures features config =
     Inr (concat (map (clipped_feature config) features))"
  using fold_clip_feature_step[of config features "[]"]
  by (simp add: transformAndClipPolygonFeatures_def createTransform_defined[OF assms])

lemmas clip_eval = clipPolygonAgainstEdge_def clip_vertex_def computeEdgeIntersection_def Let_def
  upt_conv_Cons

text \<open>
  C3 (the length test at one input).  The claim is that a clipped ring is reclosed and
  that only rings left with fewer than four vertices are dropped.  The code tests
  \<^verbatim>\<open>clippedRing.length >= 4\<close> before it recloses.  With a buffer of 8 pixels, the
  closed triangle \<open>(8,7) (10,7) (9,9) (8,7)\<close> crosses the top edge of the tile; its
  clipped ring is the open triangle \<open>(24,0) (16,16) (8,0)\<close>, which reclosed has four
  vertices, and the code drops it: no feature is returned.  The same triangle listed
  from \<open>(9,9)\<close> is kept.  A triangular shell that is lost in this way leaves its hole
  as the only ring of the feature.
\<close>

theorem transformAndClipPolygonFeatures_drops_closed_triangle:
  "clipped_ring \<lparr>bufferPx = 8, tileSizePx = None, mvtExtent = None\<rparr>
       [(8, 7), (10, 7), (9, 9), (8, 7)] = [(24, 0), (16, 16), (8, 0)]
   \<and> length (reclosed [(24, 0), (16, 16), (8, 0)]) = 4
   \<and> transformAndClipPolygonFeatures
       [\<lparr>geometry = [[(8, 7), (10, 7), (9, 9), (8, 7)]],
         properties = Some [(''level'', PInt 128)]\<rparr>]
       \<lparr>bufferPx = 8, tileSizePx = None, mvtExtent = None\<rparr>
     = Inr []
   \<and> transformAndClipPolygonFeatures
       [\<lparr>geometry = [[(9, 9), (8, 7), (10, 7), (9, 9)]],
         properties = Some [(''level'', PInt 128)]\<rparr>]
       \<lparr>bufferPx = 8, tileSizePx = None, mvtExtent = None\<rparr>
     = Inr [\<lparr>geometry = [[(16, 16), (8, 0), (24, 0), (16, 16)]],
             properties = Some [(''level'', PInt 128)]\<rparr>]
   \<and> transformAndClipPolygonFeatures
       [\<lparr>geometry = [[(7, 7), (10, 7), (7, 10), (7, 7)],
                     [(33 / 4, 33 / 4), (67 / 8, 33 / 4), (67 / 8, 67 / 8), (33 / 4, 67 / 8), (33 / 4, 33 / 4)]],
         properties = Some [(''level'', PInt 128)]\<rparr>]
       \<lparr>bufferPx = 8, tileSizePx = None, mvtExtent = None\<rparr>
     = Inr [\<lparr>geometry = [[(4, 4), (6, 4), (6, 6), (4, 6), (4, 4)]],
             properties = Some [(''level'', PInt 128)]\<rparr>]"
proof -
  define cfg where "cfg = \<lparr>bufferPx = 8, tileSizePx = None, mvtExtent = None\<rparr>"
  define hole :: "Position list" where
    "hole = [(33 / 4, 33 / 4), (67 / 8, 33 / 4), (67 / 8, 67 / 8), (33 / 4, 67 / 8), (33 / 4, 33 / 4)]"
  define props :: Properties where "props = [(''level'', PInt 128)]"
  have t: "config_tileSizePx cfg = 256" and e: "config_mvtExtent cfg = 4096"
    by (simp_all add: cfg_def config_tileSizePx_def config_mvtExtent_def TILE_SIZE_def MVT_EXTENT_def)
  have nz: "config_tileSizePx cfg \<noteq> 0" by (simp add: t)
  have tp: "transform_point cfg (x, y) = ((x - 8) * 16, (y - 8) * 16)" for x y
    by (simp add: transform_point_def t e) (simp add: cfg_def)
  have open_triangle: "clipped_ring cfg [(8, 7), (10, 7), (9, 9), (8, 7)] = [(24, 0), (16, 16), (8, 0)]"
  proof -
    have "clipPolygonAgainstEdge [(0, - 16), (32, - 16), (16, 16), (0, - 16)] Left 0
        = [(0, - 16), (32, - 16), (16, 16), (0, - 16)]"
      by (simp add: clip_eval)
    moreover have "clipPolygonAgainstEdge [(0, - 16), (32, - 16), (16, 16), (0, - 16)] Right 4096
        = [(0, - 16), (32, - 16), (16, 16), (0, - 16)]"
      by (simp add: clip_eval)
    moreover have "clipPolygonAgainstEdge [(0, - 16), (32, - 16), (16, 16), (0, - 16)] Top 0
        = [(24, 0), (16, 16), (8, 0)]"
      by (simp add: clip_eval)
    moreover have "clipPolygonAgainstEdge [(24, 0), (16, 16), (8, 0)] Bottom 4096
        = [(24, 0), (16, 16), (8, 0)]"
      by (simp add: clip_eval)
    ultimately show ?thesis
      by (simp add: clipped_ring_def e tp clipPolygonRingToBox_def)
  qed
  have closed_triangle: "clipped_ring cfg [(9, 9), (8, 7), (10, 7), (9, 9)]
      = [(16, 16), (8, 0), (24, 0), (16, 16)]"
  proof -
    have "clipPolygonAgainstEdge [(16, 16), (0, - 16), (32, - 16), (16, 16)] Left 0
        = [(16, 16), (0, - 16), (32, - 16), (16, 16)]"
      by (simp add: clip_eval)
    moreover have "clipPolygonAgainstEdge [(16, 16), (0, - 16), (32, - 16), (16, 16)] Right 4096
        = [(16, 16), (0, - 16), (32, - 16), (16, 16)]"
      by (simp add: clip_eval)
    moreover have "clipPolygonAgainstEdge [(16, 16), (0, - 16), (32, - 16), (16, 16)] Top 0
        = [(16, 16), (8, 0), (24, 0), (16, 16)]"
      by (simp add: clip_eval)
    moreover have "clipPolygonAgainstEdge [(16, 16), (8, 0), (24, 0), (16, 16)] Bottom 4096
        = [(16, 16), (8, 0), (24, 0), (16, 16)]"
      by (simp add: clip_eval)
    ultimately show ?thesis
      by (simp add: clipped_ring_def e tp clipPolygonRingToBox_def)
  qed
  have corner: "clipped_ring cfg [(7, 7), (10, 7), (7, 10), (7, 7)] = [(0, 0), (16, 0), (0, 16)]"
  proof -
    have "clipPolygonAgainstEdge [(- 16, - 16), (32, - 16), (- 16, 32), (- 16, - 16)] Left 0
        = [(0, - 16), (32, - 16), (0, 16)]"
      by (simp add: clip_eval)
    moreover have "clipPolygonAgainstEdge [(0, - 16), (32, - 16), (0, 16)] Right 4096
        = [(0, - 16), (32, - 16), (0, 16)]"
      by (simp add: clip_eval)
    moreover have "clipPolygonAgainstEdge [(0, - 16), (32, - 16), (0, 16)] Top 0
        = [(0, 0), (16, 0), (0, 16)]"
      by (simp add: clip_eval)
    moreover have "clipPolygonAgainstEdge [(0, 0), (16, 0), (0, 16)] Bottom 4096
        = [(0, 0), (16, 0), (0, 16)]"
      by (simp add: clip_eval)
    ultimately show ?thesis
      by (simp add: clipped_ring_def e tp clipPolygonRingToBox_def)
  qed
  have inner: "clipped_ring cfg hole = [(4, 4), (6, 4), (6, 6), (4, 6), (4, 4)]"
  proof -
    let ?r = "[(4, 4), (6, 4), (6, 6), (4, 6), (4, 4)] :: Position list"
    have "clipPolygonAgainstEdge ?r Left 0 = ?r" by (simp add: clip_eval)
    moreover have "clipPolygonAgainstEdge ?r Right 4096 = ?r" by (simp add: clip_eval)
    moreover have "clipPolygonAgainstEdge ?r Top 0 = ?r" by (simp add: clip_eval)
    moreover have "clipPolygonAgainstEdge ?r Bottom 4096 = ?r" by (simp add: clip_eval)
    ultimately show ?thesis
      by (simp add: clipped_ring_def e tp clipPolygonRingToBox_def hole_def)
  qed
  have four: "length (reclosed [(24, 0), (16, 16), (8, 0) :: Position]) = 4"
    by (simp add: reclosed_def)
  have dropped: "transformAndClipPolygonFeatures
      [\<lparr>geometry = [[(8, 7), (10, 7), (9, 9), (8, 7)]], properties = Some props\<rparr>] cfg = Inr []"
    by (simp add: transformAndClipPolygonFeatures_eq[OF nz] clipped_feature_def surviving_rings_def
        open_triangle)
  have kept: "transformAndClipPolygonFeatures
      [\<lparr>geometry = [[(9, 9), (8, 7), (10, 7), (9, 9)]], properties = Some props\<rparr>] cfg
      = Inr [\<lparr>geometry = [[(16, 16), (8, 0), (24, 0), (16, 16)]], properties = Some props\<rparr>]"
    by (simp add: transformAndClipPolygonFeatures_eq[OF nz] clipped_feature_def surviving_rings_def
        closed_triangle reclosed_def properties_or_empty_def)
  have promoted: "transformAndClipPolygonFeatures
      [\<lparr>geometry = [[(7, 7), (10, 7), (7, 10), (7, 7)], hole], properties = Some props\<rparr>] cfg
      = Inr [\<lparr>geometry = [[(4, 4), (6, 4), (6, 6), (4, 6), (4, 4)]], properties = Some props\<rparr>]"
    by (simp add: transformAndClipPolygonFeatures_eq[OF nz] clipped_feature_def surviving_rings_def
        corner inner reclosed_def properties_or_empty_def)
  show ?thesis
    using open_triangle four dropped kept promoted
    unfolding cfg_def hole_def props_def by (intro conjI)
qed

section \<open>Proofs: contour lines\<close>

lemma createGrid_2x2:
  "createGrid [a, b, c, d] 2 2 = Inr \<lparr>data = [a, b, c, d], width = 2, height = 2\<rparr>"
  by (simp add: createGrid_def)

lemma collectSegments_2x2:
  assumes "width grid = 2" "height grid = 2"
  shows "collectSegments grid level forPolygons = processCellMarching grid level 0 0 forPolygons"
  using assms by (simp add: collectSegments_def pixel_rows_def)

lemma clamp_half:
  "max EPSILON (min (1 - EPSILON) (1 / 2)) = 1 / 2"
  by (simp add: EPSILON_def)

lemma binary_crossing:
  assumes "v1 = 0 \<or> v1 = 1" "v2 = 0 \<or> v2 = 1"
  shows "(if \<bar>v2 - v1\<bar> < EPSILON then 1 / 2 else (1 / 2 - v1) / (v2 - v1)) = 1 / 2"
  using assms by (auto simp: EPSILON_def)

lemma interpolate_binary:
  assumes "gridGetAt grid (y1 * width grid + x1) = 0 \<or> gridGetAt grid (y1 * width grid + x1) = 1"
    and "gridGetAt grid (y2 * width grid + x2) = 0 \<or> gridGetAt grid (y2 * width grid + x2) = 1"
  shows "interpolate grid (1 / 2) x1 y1 x2 y2 =
     (real_of_int x1 + real_of_int (x2 - x1) / 2, real_of_int y1 + real_of_int (y2 - y1) / 2)"
  unfolding interpolate_def Let_def binary_crossing[OF assms] clamp_half by simp

lemma gridGetAt_2x2:
  "gridGetAt \<lparr>data = [a, b, c, d], width = 2, height = 2\<rparr> 0 = a"
  "gridGetAt \<lparr>data = [a, b, c, d], width = 2, height = 2\<rparr> 1 = b"
  "gridGetAt \<lparr>data = [a, b, c, d], width = 2, height = 2\<rparr> 2 = c"
  "gridGetAt \<lparr>data = [a, b, c, d], width = 2, height = 2\<rparr> 3 = d"
  by (simp_all add: gridGetAt_def eval_nat_numeral)

lemma case_index_or:
  "(if a then 1 else 0) OR (if b then 2 else 0) OR (if c then 4 else 0) OR (if d then (8::nat) else 0)
     = case_index a b c d"
  by (cases a; cases b; cases c; cases d; simp add: case_index_def)


lemma of_bool_ge_half: "(1 / 2 \<le> (of_bool a :: real)) = a"
  by (cases a) simp_all

lemma of_bool_binary: "(of_bool a :: real) = 0 \<or> (of_bool a :: real) = 1"
  by (cases a) simp_all

lemma midpoints_binary:
  fixes TL TR BL BR :: bool
  defines "g \<equiv> \<lparr>data = [of_bool TL, of_bool TR, of_bool BL, of_bool BR], width = 2, height = 2\<rparr>"
  shows "interpolate g (1 / 2) 0 (0 + 1) (0 + 1) (0 + 1) = (1 / 2, 1)"
    and "interpolate g (1 / 2) (0 + 1) 0 (0 + 1) (0 + 1) = (1, 1 / 2)"
    and "interpolate g (1 / 2) 0 0 (0 + 1) 0 = (1 / 2, 0)"
    and "interpolate g (1 / 2) 0 0 0 (0 + 1) = (0, 1 / 2)"
proof -
  have v: "gridGetAt g i = 0 \<or> gridGetAt g i = 1" if "i = 0 \<or> i = 1 \<or> i = 2 \<or> i = 3" for i
    using that of_bool_binary[of TL] of_bool_binary[of TR] of_bool_binary[of BL]
      of_bool_binary[of BR]
    unfolding g_def by (auto simp only: gridGetAt_2x2)
  have w: "width g = 2" by (simp add: g_def)
  show "interpolate g (1 / 2) 0 (0 + 1) (0 + 1) (0 + 1) = (1 / 2, 1)"
    by (subst interpolate_binary) (simp_all add: w v)
  show "interpolate g (1 / 2) (0 + 1) 0 (0 + 1) (0 + 1) = (1, 1 / 2)"
    by (subst interpolate_binary) (simp_all add: w v)
  show "interpolate g (1 / 2) 0 0 (0 + 1) 0 = (1 / 2, 0)"
    by (subst interpolate_binary) (simp_all add: w v)
  show "interpolate g (1 / 2) 0 0 0 (0 + 1) = (0, 1 / 2)"
    by (subst interpolate_binary) (simp_all add: w v)
qed

lemma processCellMarching_binary:
  fixes TL TR BL BR :: bool
  defines "g \<equiv> \<lparr>data = [of_bool TL, of_bool TR, of_bool BL, of_bool BR], width = 2, height = 2\<rparr>"
  shows "processCellMarching g (1 / 2) 0 0 False = appendix_A (case_index TL TR BR BL)"
proof -
  have vals: "gridGetAt g (0 * width g + 0) = of_bool TL"
    "gridGetAt g (0 * width g + (0 + 1)) = of_bool TR"
    "gridGetAt g ((0 + 1) * width g + (0 + 1)) = of_bool BR"
    "gridGetAt g ((0 + 1) * width g + 0) = of_bool BL"
    by (simp_all add: g_def gridGetAt_2x2)
  note mids = midpoints_binary[of TL TR BL BR, folded g_def]
  have "processCellMarching g (1 / 2) 0 0 False =
     (let lm = (0, 1 / 2); tm = (1 / 2, 1); rm = (1, 1 / 2); bm = (1 / 2, 0);
          k = case_index TL TR BR BL
      in if k = 0 then []
         else if k = 1 then [[lm, bm]]
         else if k = 2 then [[bm, rm]]
         else if k = 3 then [[lm, rm]]
         else if k = 4 then [[rm, tm]]
         else if k = 5 then [[lm, tm], [rm, bm]]
         else if k = 6 then [[bm, tm]]
         else if k = 7 then [[lm, tm]]
         else if k = 8 then [[tm, lm]]
         else if k = 9 then [[tm, bm]]
         else if k = 10 then [[bm, lm], [tm, rm]]
         else if k = 11 then [[tm, rm]]
         else if k = 12 then [[rm, lm]]
         else if k = 13 then [[rm, bm]]
         else if k = 14 then [[bm, lm]]
         else [])"
    unfolding processCellMarching_def Let_def mids vals of_bool_ge_half case_index_or
    by simp
  also have "\<dots> = appendix_A (case_index TL TR BR BL)"
    unfolding appendix_A_def Let_def by simp
  finally show ?thesis .
qed


lemma find_other_self:
  assumes "set xs \<subseteq> {chain}"
  shows "find_other st chain xs = None"
  using assms by (auto simp: find_other_def find_None_iff)

lemma extendChain_isolated:
  assumes "set (byStart st (endKey (chains st ! chain))) \<subseteq> {chain}"
    and "set (byEnd st (endKey (chains st ! chain))) \<subseteq> {chain}"
    and "set (byEnd st (startKey (chains st ! chain))) \<subseteq> {chain}"
    and "set (byStart st (startKey (chains st ! chain))) \<subseteq> {chain}"
  shows "extendChain chain st = st"
  by (subst extendChain.simps) (simp add: find_other_self[OF assms(1)] find_other_self[OF assms(2)]
      find_other_self[OF assms(3)] find_other_self[OF assms(4)])

lemma mergeSegments_empty: "mergeSegments [] = Inr []"
  by (simp add: mergeSegments_def)

lemma mergeSegments_single: "mergeSegments [[p, q]] = Inr [[p, q]]"
proof -
  define c where "c = \<lparr>coords = [p, q], startKey = coordKey p, endKey = coordKey q, merged = False\<rparr>"
  define st where "st = \<lparr>chains = [c], byStart = (\<lambda>k. [])(coordKey p := [0]),
                           byEnd = (\<lambda>k. [])(coordKey q := [0])\<rparr>"
  have ic: "initial_chains [[p, q]] = [c]"
    by (simp add: initial_chains_def c_def)
  have ix: "index_chain 0 \<lparr>chains = [c], byStart = (\<lambda>k. []), byEnd = (\<lambda>k. [])\<rparr> = st"
    by (simp add: index_chain_def st_def addToIndex_def c_def)
  have ex: "extendChain 0 st = st"
    by (rule extendChain_isolated) (auto simp add: st_def c_def)
  have eu: "extend_unmerged 0 st = st"
    by (simp add: extend_unmerged_def ex)
  have "mergeSegments [[p, q]] = Inr (map coords (filter (\<lambda>c. \<not> merged c) (chains st)))"
    by (simp add: mergeSegments_def Let_def ic ix eu)
  also have "\<dots> = Inr [[p, q]]"
    by (simp add: st_def c_def)
  finally show ?thesis .
qed

lemma mergeSegments_apart:
  assumes "coordKey p \<noteq> coordKey r" "coordKey p \<noteq> coordKey s"
    and "coordKey q \<noteq> coordKey r" "coordKey q \<noteq> coordKey s"
  shows "mergeSegments [[p, q], [r, s]] = Inr [[p, q], [r, s]]"
proof -
  define c0 where "c0 = \<lparr>coords = [p, q], startKey = coordKey p, endKey = coordKey q, merged = False\<rparr>"
  define c1 where "c1 = \<lparr>coords = [r, s], startKey = coordKey r, endKey = coordKey s, merged = False\<rparr>"
  define st where "st = \<lparr>chains = [c0, c1], byStart = (\<lambda>k. [])(coordKey p := [0], coordKey r := [1]),
                           byEnd = (\<lambda>k. [])(coordKey q := [0], coordKey s := [1])\<rparr>"
  have ic: "initial_chains [[p, q], [r, s]] = [c0, c1]"
    by (simp add: initial_chains_def c0_def c1_def)
  have ix: "index_chain (Suc 0) (index_chain 0 \<lparr>chains = [c0, c1], byStart = (\<lambda>k. []), byEnd = (\<lambda>k. [])\<rparr>)
      = st"
    using assms by (simp add: index_chain_def st_def addToIndex_def c0_def c1_def)
  have ex0: "extendChain 0 st = st"
    by (rule extendChain_isolated) (use assms in \<open>auto simp add: st_def c0_def c1_def\<close>)
  have ex1: "extendChain (Suc 0) st = st"
    by (rule extendChain_isolated) (use assms in \<open>auto simp add: st_def c0_def c1_def\<close>)
  have eu: "extend_unmerged 0 st = st" "extend_unmerged (Suc 0) st = st"
    by (simp_all add: extend_unmerged_def ex0 ex1)
  have "mergeSegments [[p, q], [r, s]] = Inr (map coords (filter (\<lambda>c. \<not> merged c) (chains st)))"
    by (simp add: mergeSegments_def Let_def ic ix eu)
  also have "\<dots> = Inr [[p, q], [r, s]]"
    by (simp add: st_def c0_def c1_def)
  finally show ?thesis .
qed


lemma coordKey_midpoints:
  "coordKey (0, 1 / 2) = (0, 500000)"
  "coordKey (1 / 2, 1) = (500000, 1000000)"
  "coordKey (1, 1 / 2) = (1000000, 500000)"
  "coordKey (1 / 2, 0) = (500000, 0)"
  by (simp_all add: coordKey_def js_round_def)

lemma mergeSegments_appendix_A:
  "mergeSegments (appendix_A k) = Inr (appendix_A k)"
proof -
  have two: "mergeSegments [[(0, 1 / 2), (1 / 2, 1)], [(1, 1 / 2), (1 / 2, 0)]]
        = Inr [[(0, 1 / 2), (1 / 2, 1)], [(1, 1 / 2), (1 / 2, 0)]]"
    "mergeSegments [[(1 / 2, 0), (0, 1 / 2)], [(1 / 2, 1), (1, 1 / 2)]]
        = Inr [[(1 / 2, 0), (0, 1 / 2)], [(1 / 2, 1), (1, 1 / 2)]]"
    by (rule mergeSegments_apart; simp add: coordKey_midpoints)+
  show ?thesis
    unfolding appendix_A_def Let_def
    by (simp add: mergeSegments_empty mergeSegments_single two)
qed

lemma appendix_A_shape:
  "length (appendix_A (case_index TL TR BR BL)) =
     (if case_index TL TR BR BL = 0 \<or> case_index TL TR BR BL = 15 then 0
      else if case_index TL TR BR BL = 5 \<or> case_index TL TR BR BL = 10 then 2 else 1)"
  "distinct (concat (appendix_A (case_index TL TR BR BL)))"
  by (cases TL; cases TR; cases BR; cases BL; simp add: case_index_def appendix_A_def)+

text \<open>
  C1. On every 2 by 2 grid of corner values 0 or 1 (top left, top right, bottom left,
  bottom right in row-major order) and the level 0.5, \<open>traceLines\<close> returns, as line
  features of that level, exactly the segments of the case table for the case index of
  the four corners: none for the cases 0 and 15, two segments with no common point for
  the cases 5 and 10, one segment otherwise.
\<close>

theorem traceLines_marching_squares_cases:
  "traceLines [of_bool TL, of_bool TR, of_bool BL, of_bool BR] 2 2 [1 / 2] =
     Inr (map (\<lambda>cs. lineString cs [(''level'', PNum (1 / 2))])
            (appendix_A (case_index TL TR BR BL)))
   \<and> length (appendix_A (case_index TL TR BR BL)) =
       (if case_index TL TR BR BL = 0 \<or> case_index TL TR BR BL = 15 then 0
        else if case_index TL TR BR BL = 5 \<or> case_index TL TR BR BL = 10 then 2 else 1)
   \<and> distinct (concat (appendix_A (case_index TL TR BR BL)))"
proof -
  define g where
    "g = \<lparr>data = [of_bool TL, of_bool TR, of_bool BL, of_bool BR], width = 2, height = 2\<rparr>"
  have cg: "createGrid [of_bool TL, of_bool TR, of_bool BL, of_bool BR] 2 2 = Inr g"
    unfolding g_def by (rule createGrid_2x2)
  have "collectSegments g (1 / 2) False = processCellMarching g (1 / 2) 0 0 False"
    by (rule collectSegments_2x2) (simp_all add: g_def)
  also have "\<dots> = appendix_A (case_index TL TR BR BL)"
    unfolding g_def by (rule processCellMarching_binary)
  finally have cs: "collectSegments g (1 / 2) False = appendix_A (case_index TL TR BR BL)" .
  have "traceLines [of_bool TL, of_bool TR, of_bool BL, of_bool BR] 2 2 [1 / 2] =
     Inr (map (\<lambda>cs. lineString cs [(''level'', PNum (1 / 2))])
            (appendix_A (case_index TL TR BR BL)))"
    by (simp add: traceLines_def cg trace_level_lines_def cs mergeSegments_appendix_A)
  then show ?thesis
    using appendix_A_shape[of TL TR BR BL] by (intro conjI)
qed

theorem traceLines_saddle_witness:
  "traceLines [1, 0, 0, 1] 2 2 [1 / 2] =
     Inr [lineString [(0, 1 / 2), (1 / 2, 1)] [(''level'', PNum (1 / 2))],
          lineString [(1, 1 / 2), (1 / 2, 0)] [(''level'', PNum (1 / 2))]]"
  using traceLines_marching_squares_cases[where TL = True and TR = False and BL = False and BR = True]
  by (simp add: case_index_def appendix_A_def)

section \<open>Proofs: polygon rings\<close>

lemma collect_ring_closed:
  assumes "collect_ring line (Inr polys) = Inr polys'"
    and "\<forall>p\<in>set polys. 4 \<le> length (fst p) \<and> hd (fst p) = last (fst p)"
  shows "\<forall>p\<in>set polys'. 4 \<le> length (fst p) \<and> hd (fst p) = last (fst p)"
proof (cases "closeRing line")
  case (Inl e)
  with assms(1) show ?thesis by (simp add: collect_ring_def)
next
  case (Inr ring)
  show ?thesis
  proof (cases "length ring < 4")
    case True
    with assms Inr show ?thesis by (simp add: collect_ring_def)
  next
    case False
    define closed where "closed = ring[length ring - 1 := ring ! 0]"
    have len: "4 \<le> length closed" using False by (simp add: closed_def)
    then have ne: "closed \<noteq> []" by auto
    have "last closed = closed ! (length closed - 1)" using ne by (rule last_conv_nth)
    also have "\<dots> = ring ! 0" using False by (simp add: closed_def)
    also have "ring ! 0 = closed ! 0" using False by (simp add: closed_def)
    also have "\<dots> = hd closed" using ne by (simp add: hd_conv_nth)
    finally have c: "hd closed = last closed" by simp
    have "polys' = polys @ [(closed, \<bar>ringArea closed\<bar>)]"
      using assms(1) Inr False by (simp add: collect_ring_def Let_def closed_def)
    with assms(2) len c show ?thesis by auto
  qed
qed

lemma collect_ring_error: "collect_ring line (Inl e) = Inl e"
  by (simp add: collect_ring_def)

lemma fold_collect_ring_error: "fold collect_ring lines (Inl e) = Inl e"
  by (induction lines) (simp_all add: collect_ring_error)

lemma fold_collect_ring_closed:
  assumes "fold collect_ring lines (Inr polys) = Inr polys'"
    and "\<forall>p\<in>set polys. 4 \<le> length (fst p) \<and> hd (fst p) = last (fst p)"
  shows "\<forall>p\<in>set polys'. 4 \<le> length (fst p) \<and> hd (fst p) = last (fst p)"
  using assms
proof (induction lines arbitrary: polys)
  case Nil
  then show ?case by simp
next
  case (Cons line lines)
  show ?case
  proof (cases "collect_ring line (Inr polys)")
    case (Inl e)
    with Cons.prems(1) show ?thesis by (simp add: fold_collect_ring_error)
  next
    case (Inr next_polys)
    with Cons.prems(1) have "fold collect_ring lines (Inr next_polys) = Inr polys'" by simp
    moreover have "\<forall>p\<in>set next_polys. 4 \<le> length (fst p) \<and> hd (fst p) = last (fst p)"
      by (rule collect_ring_closed[OF Inr Cons.prems(2)])
    ultimately show ?thesis by (rule Cons.IH)
  qed
qed

lemma assign_hole_rings:
  assumes "j < length polys" "set (fst acc) \<subseteq> fst ` set polys"
  shows "set (fst (assign_hole polys i j acc)) \<subseteq> fst ` set polys"
  using assms by (cases acc) (auto simp: assign_hole_def Let_def)

lemma fold_assign_hole_rings:
  assumes "\<forall>j\<in>set js. j < length polys" "set (fst acc) \<subseteq> fst ` set polys"
  shows "set (fst (fold (assign_hole polys i) js acc)) \<subseteq> fst ` set polys"
  using assms
proof (induction js arbitrary: acc)
  case Nil
  then show ?case by simp
next
  case (Cons j js)
  have "set (fst (assign_hole polys i j acc)) \<subseteq> fst ` set polys"
    using Cons.prems by (intro assign_hole_rings) simp_all
  with Cons.prems(1) show ?case by (simp add: Cons.IH)
qed

lemma build_polygon_rings:
  assumes "i < length polys"
    and "\<forall>f\<in>set (fst acc). set (geometry f) \<subseteq> fst ` set polys"
  shows "\<forall>f\<in>set (fst (build_polygon polys level i acc)). set (geometry f) \<subseteq> fst ` set polys"
proof -
  obtain result used where acc: "acc = (result, used)" by (cases acc)
  obtain holes used' where h: "fold (assign_hole polys i) [i + 1..<length polys] ([], used) = (holes, used')"
    by (cases "fold (assign_hole polys i) [i + 1..<length polys] ([], used)")
  have "set (fst (fold (assign_hole polys i) [i + 1..<length polys] ([], used))) \<subseteq> fst ` set polys"
    by (rule fold_assign_hole_rings) simp_all
  then have holes: "set holes \<subseteq> fst ` set polys" unfolding h by simp
  have shell: "fst (polys ! i) \<in> fst ` set polys" using assms(1) by simp
  have bp: "build_polygon polys level i acc =
      (if i \<in> used then (result, used)
       else (result @ [polygon (fst (polys ! i) # holes) [(''level'', PNum level)]],
             insert i used'))"
    unfolding build_polygon_def acc prod.case h ..
  show ?thesis
    unfolding bp using assms(2) holes shell
    by (auto simp: acc polygon_def)
qed

lemma fold_build_polygon_rings:
  assumes "\<forall>i\<in>set is. i < length polys"
    and "\<forall>f\<in>set (fst acc). set (geometry f) \<subseteq> fst ` set polys"
  shows "\<forall>f\<in>set (fst (fold (build_polygon polys level) is acc)). set (geometry f) \<subseteq> fst ` set polys"
  using assms
proof (induction "is" arbitrary: acc)
  case Nil
  then show ?case by simp
next
  case (Cons i "is")
  have "\<forall>f\<in>set (fst (build_polygon polys level i acc)). set (geometry f) \<subseteq> fst ` set polys"
    using Cons.prems by (intro build_polygon_rings) simp_all
  with Cons.prems(1) show ?case by (simp add: Cons.IH)
qed

lemma buildPolygonsWithHoles_closed:
  assumes "buildPolygonsWithHoles lines level = Inr fs"
  shows "\<forall>f\<in>set fs. \<forall>ring\<in>set (geometry f). 4 \<le> length ring \<and> hd ring = last ring"
proof (cases "fold collect_ring lines (Inr [])")
  case (Inl e)
  with assms show ?thesis by (simp add: buildPolygonsWithHoles_def)
next
  case (Inr polys)
  have c: "\<forall>p\<in>set polys. 4 \<le> length (fst p) \<and> hd (fst p) = last (fst p)"
    by (rule fold_collect_ring_closed[OF Inr]) simp
  define sorted_polys where "sorted_polys = sort_polys polys"
  have s: "set sorted_polys = set polys" by (simp add: sorted_polys_def sort_polys_def)
  have fs: "fs = fst (fold (build_polygon sorted_polys level) [0..<length sorted_polys] ([], {}))"
    using assms Inr by (simp add: buildPolygonsWithHoles_def Let_def sorted_polys_def)
  have "\<forall>f\<in>set fs. set (geometry f) \<subseteq> fst ` set sorted_polys"
    unfolding fs by (rule fold_build_polygon_rings) simp_all
  with c s show ?thesis by fastforce
qed


lemma trace_level_polygons_error: "trace_level_polygons grid level (Inl e) = Inl e"
  by (simp add: trace_level_polygons_def)

lemma fold_trace_level_polygons_error: "fold (trace_level_polygons grid) levels (Inl e) = Inl e"
  by (induction levels) (simp_all add: trace_level_polygons_error)

lemma fold_trace_level_polygons_closed:
  assumes "fold (trace_level_polygons grid) levels (Inr acc) = Inr fs"
    and "\<forall>f\<in>set acc. \<forall>ring\<in>set (geometry f). 4 \<le> length ring \<and> hd ring = last ring"
  shows "\<forall>f\<in>set fs. \<forall>ring\<in>set (geometry f). 4 \<le> length ring \<and> hd ring = last ring"
  using assms
proof (induction levels arbitrary: acc)
  case Nil
  then show ?case by simp
next
  case (Cons level levels)
  show ?case
  proof (cases "trace_level_polygons grid level (Inr acc)")
    case (Inl e)
    with Cons.prems(1) show ?thesis by (simp add: fold_trace_level_polygons_error)
  next
    case (Inr acc')
    then obtain lines polygons where
      "buildPolygonsWithHoles lines level = Inr polygons" "acc' = acc @ polygons"
      by (auto simp: trace_level_polygons_def split: sum.splits)
    with buildPolygonsWithHoles_closed[of lines level polygons] Cons.prems(2)
    have "\<forall>f\<in>set acc'. \<forall>ring\<in>set (geometry f). 4 \<le> length ring \<and> hd ring = last ring"
      by auto
    moreover have "fold (trace_level_polygons grid) levels (Inr acc') = Inr fs"
      using Cons.prems(1) Inr by simp
    ultimately show ?thesis by (rule Cons.IH[rotated])
  qed
qed

lemma tracePolygons_closed:
  assumes "tracePolygons d w h levels = Inr fs"
  shows "\<forall>f\<in>set fs. \<forall>ring\<in>set (geometry f). 4 \<le> length ring \<and> hd ring = last ring"
proof (cases "createGrid d w h")
  case (Inl e)
  with assms show ?thesis by (simp add: tracePolygons_def)
next
  case (Inr grid)
  with assms have "fold (trace_level_polygons grid) levels (Inr []) = Inr fs"
    by (simp add: tracePolygons_def)
  then show ?thesis by (rule fold_trace_level_polygons_closed) simp
qed

lemma transformAndClipPolygonFeatures_closed:
  assumes "transformAndClipPolygonFeatures features config = Inr out"
  shows "\<forall>f\<in>set out. \<forall>ring\<in>set (geometry f). 4 \<le> length ring \<and> hd ring = last ring"
proof -
  have nz: "config_tileSizePx config \<noteq> 0"
  proof
    assume "config_tileSizePx config = 0"
    then have "transformAndClipPolygonFeatures features config = Inl DivisionByZero"
      by (simp add: transformAndClipPolygonFeatures_def createTransform_def js_div_def)
    with assms show False by simp
  qed
  from transformAndClipPolygonFeatures_eq[OF nz, of features] assms
  have out: "out = concat (map (clipped_feature config) features)" by simp
  show ?thesis
  proof (intro ballI)
    fix f ring assume f: "f \<in> set out" and r: "ring \<in> set (geometry f)"
    from f obtain g where "g \<in> set features" "f \<in> set (clipped_feature config g)"
      unfolding out by auto
    then have "geometry f = surviving_rings config (geometry g)"
      by (auto simp: clipped_feature_def polygon_def split: if_splits)
    with r show "4 \<le> length ring \<and> hd ring = last ring"
      using surviving_rings_closed by simp
  qed
qed

lemma coordKey_corner:
  "coordKey (0, 1 / 2) = (0, 500000)"
  "coordKey (1 / 2, 0) = (500000, 0)"
  "coordKey (0, 0) = (0, 0)"
  by (simp_all add: coordKey_def js_round_def)

lemma merge_corner_triangle:
  "mergeSegments [[(0, 1 / 2), (1 / 2, 0)], [(1 / 2, 0), (0, 0)], [(0, 0), (0, 1 / 2)]]
     = Inr [[(0, 1 / 2), (1 / 2, 0), (0, 0), (0, 1 / 2)]]"
proof -
  define A :: Coordinate where "A = (0, 1 / 2)"
  define B :: Coordinate where "B = (1 / 2, 0)"
  define Z :: Coordinate where "Z = (0, 0)"
  define kA :: key where "kA = (0, 500000)"
  define kB :: key where "kB = (500000, 0)"
  define kZ :: key where "kZ = (0, 0)"
  have keys: "coordKey A = kA" "coordKey B = kB" "coordKey Z = kZ"
    by (simp_all add: A_def B_def Z_def kA_def kB_def kZ_def coordKey_corner)
  have ne: "kA \<noteq> kB" "kA \<noteq> kZ" "kB \<noteq> kZ" "kB \<noteq> kA" "kZ \<noteq> kA" "kZ \<noteq> kB"
    by (simp_all add: kA_def kB_def kZ_def)
  define c0 where "c0 = \<lparr>coords = [A, B], startKey = kA, endKey = kB, merged = False\<rparr>"
  define c1 where "c1 = \<lparr>coords = [B, Z], startKey = kB, endKey = kZ, merged = False\<rparr>"
  define c2 where "c2 = \<lparr>coords = [Z, A], startKey = kZ, endKey = kA, merged = False\<rparr>"
  define st0 where "st0 = \<lparr>chains = [c0, c1, c2],
      byStart = (\<lambda>k. [])(kA := [0], kB := [1], kZ := [2]),
      byEnd = (\<lambda>k. [])(kB := [0], kZ := [1], kA := [2])\<rparr>"
  define st1 where "st1 = \<lparr>chains = [c0\<lparr>coords := [A, B, Z], endKey := kZ\<rparr>, c1\<lparr>merged := True\<rparr>, c2],
      byStart = (\<lambda>k. [])(kA := [0], kB := [], kZ := [2]),
      byEnd = (\<lambda>k. [])(kB := [], kZ := [0], kA := [2])\<rparr>"
  define st2 where "st2 = \<lparr>chains = [c0\<lparr>coords := [A, B, Z, A], endKey := kA\<rparr>, c1\<lparr>merged := True\<rparr>,
        c2\<lparr>merged := True\<rparr>],
      byStart = (\<lambda>k. [])(kA := [0], kB := [], kZ := []),
      byEnd = (\<lambda>k. [])(kB := [], kZ := [], kA := [0])\<rparr>"
  have ic: "initial_chains [[A, B], [B, Z], [Z, A]] = [c0, c1, c2]"
    by (simp add: initial_chains_def c0_def c1_def c2_def keys)
  have u: "[0..<3] = [0, 1, 2 :: nat]" by (simp add: eval_nat_numeral upt_conv_Cons)
  have ix: "fold index_chain [0..<3] \<lparr>chains = [c0, c1, c2], byStart = (\<lambda>k. []), byEnd = (\<lambda>k. [])\<rparr> = st0"
    unfolding u using ne by (simp add: index_chain_def addToIndex_def st0_def c0_def c1_def c2_def)
  have f0: "find_other st0 0 (byStart st0 (endKey (chains st0 ! 0))) = Some 1"
    using ne by (simp add: find_other_def st0_def c0_def c1_def)
  have a0: "appendOther 0 1 st0 = st1"
    using ne by (simp add: appendOther_def Let_def st0_def st1_def c0_def c1_def c2_def
        removeFromIndex_def addToIndex_def fun_upd_twist)
  have f1: "find_other st1 0 (byStart st1 (endKey (chains st1 ! 0))) = Some 2"
    using ne by (simp add: find_other_def st1_def c0_def c1_def c2_def)
  have a1: "appendOther 0 2 st1 = st2"
    using ne by (simp add: appendOther_def Let_def st1_def st2_def c0_def c1_def c2_def
        removeFromIndex_def addToIndex_def fun_upd_twist)
  have e2: "extendChain 0 st2 = st2"
    by (rule extendChain_isolated) (use ne in \<open>auto simp add: st2_def c0_def\<close>)
  have e1: "extendChain 0 st1 = st2"
    by (subst extendChain.simps) (simp only: f1 option.case a1 e2)
  have e0: "extendChain 0 st0 = st2"
    by (subst extendChain.simps) (simp only: f0 option.case a0 e1)
  have ex: "fold extend_unmerged [0..<3] st0 = st2"
  proof -
    have "extend_unmerged 0 st0 = st2"
      by (simp add: extend_unmerged_def e0) (simp add: st0_def c0_def)
    moreover have "extend_unmerged 1 st2 = st2" "extend_unmerged 2 st2 = st2"
      by (simp_all add: extend_unmerged_def st2_def)
    ultimately show ?thesis unfolding u by simp
  qed
  have n: "length [[A, B], [B, Z], [Z, A]] = 3" by simp
  have "mergeSegments [[A, B], [B, Z], [Z, A]] = Inr (map coords (filter (\<lambda>c. \<not> merged c) (chains st2)))"
    unfolding mergeSegments_def Let_def n ic ix ex by simp
  also have "\<dots> = Inr [[A, B, Z, A]]"
    by (simp add: st2_def c0_def)
  finally show ?thesis unfolding A_def B_def Z_def .
qed


lemma corner_cell_polygon_mode:
  "processCellMarching \<lparr>data = [1, 0, 0, 0], width = 2, height = 2\<rparr> (1 / 2) 0 0 True
     = [[(0, 1 / 2), (1 / 2, 0)], [(1 / 2, 0), (0, 0)], [(0, 0), (0, 1 / 2)]]"
proof -
  define g where "g = \<lparr>data = [of_bool True, of_bool False, of_bool False, of_bool False :: real],
    width = 2, height = 2\<rparr>"
  have vals: "gridGetAt g (0 * width g + 0) = of_bool True"
    "gridGetAt g (0 * width g + (0 + 1)) = of_bool False"
    "gridGetAt g ((0 + 1) * width g + (0 + 1)) = of_bool False"
    "gridGetAt g ((0 + 1) * width g + 0) = of_bool False"
    by (simp_all add: g_def gridGetAt_2x2)
  note mids = midpoints_binary[of True False False False, folded g_def]
  have "processCellMarching g (1 / 2) 0 0 True
      = [[(0, 1 / 2), (1 / 2, 0)], [(1 / 2, 0), (0, 0)], [(0, 0), (0, 1 / 2)]]"
    unfolding processCellMarching_def Let_def mids vals of_bool_ge_half case_index_or
    by (simp add: case_index_def g_def)
  then show ?thesis by (simp add: g_def)
qed

lemma corner_triangle_polygon:
  "buildPolygonsWithHoles [[(0, 1 / 2), (1 / 2, 0), (0, 0), (0, 1 / 2)]] (1 / 2)
     = Inr [polygon [[(0, 1 / 2), (1 / 2, 0), (0, 0), (0, 1 / 2)]] [(''level'', PNum (1 / 2))]]"
proof -
  let ?ring = "[(0, 1 / 2), (1 / 2, 0), (0, 0), (0, 1 / 2)] :: Coordinate list"
  have c: "closeRing ?ring = Inr ?ring"
    by (simp add: closeRing_def coordsEqual_def EPSILON_def)
  have u: "?ring[length ?ring - 1 := ?ring ! 0] = ?ring" by simp
  have cr: "fold collect_ring [?ring] (Inr []) = Inr [(?ring, \<bar>ringArea ?ring\<bar>)]"
    by (simp add: collect_ring_def c Let_def del: ringArea_def)
  have sp: "sort_polys [(?ring, \<bar>ringArea ?ring\<bar>)] = [(?ring, \<bar>ringArea ?ring\<bar>)]"
    by (simp add: sort_polys_def)
  show ?thesis
    unfolding buildPolygonsWithHoles_def cr sum.case Let_def sp
    by (simp add: build_polygon_def)
qed

lemma corner_triangle_traced:
  "tracePolygons [1, 0, 0, 0] 2 2 [1 / 2]
     = Inr [polygon [[(0, 1 / 2), (1 / 2, 0), (0, 0), (0, 1 / 2)]] [(''level'', PNum (1 / 2))]]"
proof -
  define g :: Grid where "g = \<lparr>data = [1, 0, 0, 0], width = 2, height = 2\<rparr>"
  have cg: "createGrid [1, 0, 0, 0] 2 2 = Inr g"
    unfolding g_def by (rule createGrid_2x2)
  have "collectSegments g (1 / 2) True = processCellMarching g (1 / 2) 0 0 True"
    by (rule collectSegments_2x2) (simp_all add: g_def)
  then have cs: "collectSegments g (1 / 2) True
      = [[(0, 1 / 2), (1 / 2, 0)], [(1 / 2, 0), (0, 0)], [(0, 0), (0, 1 / 2)]]"
    unfolding g_def corner_cell_polygon_mode .
  show ?thesis
    by (simp add: tracePolygons_def cg trace_level_polygons_def cs merge_corner_triangle
        corner_triangle_polygon)
qed

lemma inner_square_clipped:
  "transformAndClipPolygonFeatures
     [\<lparr>geometry = [[(68, 68), (196, 68), (196, 196), (68, 196), (68, 68)]],
       properties = Some [(''level'', PInt 200)]\<rparr>]
     \<lparr>bufferPx = 4, tileSizePx = Some 256, mvtExtent = Some 4096\<rparr>
   = Inr [\<lparr>geometry = [[(1024, 1024), (3072, 1024), (3072, 3072), (1024, 3072), (1024, 1024)]],
           properties = Some [(''level'', PInt 200)]\<rparr>]"
proof -
  define cfg where "cfg = \<lparr>bufferPx = 4, tileSizePx = Some 256, mvtExtent = Some 4096\<rparr>"
  define f :: "Polygon Feature" where
    "f = \<lparr>geometry = [[(68, 68), (196, 68), (196, 196), (68, 196), (68, 68)]],
          properties = Some [(''level'', PInt 200)]\<rparr>"
  let ?r = "[(1024, 1024), (3072, 1024), (3072, 3072), (1024, 3072), (1024, 1024)] :: Position list"
  have t: "config_tileSizePx cfg = 256" and e: "config_mvtExtent cfg = 4096"
    by (simp_all add: cfg_def config_tileSizePx_def config_mvtExtent_def)
  have tp: "transform_point cfg (x, y) = ((x - 4) * 16, (y - 4) * 16)" for x y
    by (simp add: transform_point_def t e) (simp add: cfg_def)
  have "clipPolygonAgainstEdge ?r Left 0 = ?r" by (simp add: clip_eval)
  moreover have "clipPolygonAgainstEdge ?r Right 4096 = ?r" by (simp add: clip_eval)
  moreover have "clipPolygonAgainstEdge ?r Top 0 = ?r" by (simp add: clip_eval)
  moreover have "clipPolygonAgainstEdge ?r Bottom 4096 = ?r" by (simp add: clip_eval)
  ultimately have c: "clipped_ring cfg [(68, 68), (196, 68), (196, 196), (68, 196), (68, 68)] = ?r"
    by (simp add: clipped_ring_def e tp clipPolygonRingToBox_def)
  have cf: "clipped_feature cfg f = [\<lparr>geometry = [?r], properties = Some [(''level'', PInt 200)]\<rparr>]"
    by (simp add: clipped_feature_def surviving_rings_def f_def c reclosed_def
        properties_or_empty_def polygon_def)
  have "config_tileSizePx cfg \<noteq> 0" by (simp add: t)
  from transformAndClipPolygonFeatures_eq[OF this, of "[f]"]
  have "transformAndClipPolygonFeatures [f] cfg = Inr (clipped_feature cfg f)" by simp
  then show ?thesis unfolding cf by (simp only: f_def cfg_def)
qed

text \<open>
  C4.  Every ring of every polygon that \<open>tracePolygons\<close> returns, and every ring of
  every polygon that \<open>transformAndClipPolygonFeatures\<close> returns, has at least four
  positions, and its first position and its last position are the same pair of
  numbers.
\<close>

theorem emitted_rings_are_closed:
  "(tracePolygons d w h levels = Inr fs \<longrightarrow>
      (\<forall>f\<in>set fs. \<forall>ring\<in>set (geometry f). 4 \<le> length ring \<and> hd ring = last ring))
   \<and> (transformAndClipPolygonFeatures features config = Inr out \<longrightarrow>
      (\<forall>f\<in>set out. \<forall>ring\<in>set (geometry f). 4 \<le> length ring \<and> hd ring = last ring))"
  using tracePolygons_closed[of d w h levels fs]
    transformAndClipPolygonFeatures_closed[of features config out]
  by blast

theorem emitted_rings_are_closed_witness:
  "tracePolygons [1, 0, 0, 0] 2 2 [1 / 2]
     = Inr [polygon [[(0, 1 / 2), (1 / 2, 0), (0, 0), (0, 1 / 2)]] [(''level'', PNum (1 / 2))]]
   \<and> hd [(0, 1 / 2), (1 / 2, 0), (0, 0), (0 :: real, 1 / 2 :: real)]
       = last [(0, 1 / 2), (1 / 2, 0), (0, 0), (0, 1 / 2)]
   \<and> transformAndClipPolygonFeatures
       [\<lparr>geometry = [[(68, 68), (196, 68), (196, 196), (68, 196), (68, 68)]],
         properties = Some [(''level'', PInt 200)]\<rparr>]
       \<lparr>bufferPx = 4, tileSizePx = Some 256, mvtExtent = Some 4096\<rparr>
     = Inr [\<lparr>geometry = [[(1024, 1024), (3072, 1024), (3072, 3072), (1024, 3072), (1024, 1024)]],
             properties = Some [(''level'', PInt 200)]\<rparr>]
   \<and> hd [(1024, 1024), (3072, 1024), (3072, 3072), (1024, 3072), (1024 :: real, 1024 :: real)]
       = last [(1024, 1024), (3072, 1024), (3072, 3072), (1024, 3072), (1024, 1024)]"
  using emitted_rings_are_closed[where d = "[1, 0, 0, 0]" and w = 2 and h = 2 and levels = "[1 / 2]"
      and fs = "[polygon [[(0, 1 / 2), (1 / 2, 0), (0, 0), (0, 1 / 2)]] [(''level'', PNum (1 / 2))]]"
      and features = "[\<lparr>geometry = [[(68, 68), (196, 68), (196, 196), (68, 196), (68, 68)]],
         properties = Some [(''level'', PInt 200)]\<rparr>]"
      and config = "\<lparr>bufferPx = 4, tileSizePx = Some 256, mvtExtent = Some 4096\<rparr>"
      and out = "[\<lparr>geometry = [[(1024, 1024), (3072, 1024), (3072, 3072), (1024, 3072), (1024, 1024)]],
             properties = Some [(''level'', PInt 200)]\<rparr>]"]
    corner_triangle_traced inner_square_clipped
  by (simp add: polygon_def)

end
